theory Spec2Isabelle
  imports Complex_Main "HOL-Library.Word"
begin

unbundle bit_operations_syntax

chapter \<open>Electronic signature of PDF documents: binding hashes and the protocol page\<close>

text \<open>
  A shallow embedding of the hashing and normalisation functions of \<^verbatim>\<open>src/utils/cpf.ts\<close>,
  of \<^verbatim>\<open>src/utils/storage.ts\<close>, of \<^verbatim>\<open>src/services/pdf.ts\<close> and of the signing handler of
  \<^verbatim>\<open>src/App.tsx\<close>. Asynchronous functions are modelled by the value their promise
  resolves to; a rejected promise or a thrown exception is the \<open>Inl\<close> branch of a sum.
\<close>

section \<open>Strings, bytes and typed arrays\<close>

text \<open>
  A JavaScript string is a sequence of UTF-16 code units: \<open>length\<close>, \<open>substring\<close>,
  \<open>trim\<close> and the regular expressions of the source (none has the \<open>u\<close> flag) all count
  code units.
\<close>

type_synonym byte = "8 word"
type_synonym u32 = "32 word"
type_synonym code_unit = "16 word"
type_synonym jsstring = "code_unit list"

text \<open>An ASCII string literal of the source.\<close>

definition lit :: "string \<Rightarrow> jsstring" where
  "lit s = map (\<lambda>c. of_nat (of_char c)) s"

text \<open>
  What a function throws: a \<open>RangeError\<close>, a \<open>TypeError\<close>, \<open>new Error(message)\<close>, or
  the error of the PDF library on a text that the encoding of its font does not have (an
  \<open>Error\<close> as well, kept apart here by its cause; it carries the text).
\<close>

datatype js_error =
    RangeError
  | TypeError
  | Error jsstring
  | EncodingError jsstring

text \<open>
  A \<open>Uint8Array\<close> is a window on an \<open>ArrayBuffer\<close>: \<open>contents\<close> are the elements the
  array indexes (\<open>length\<close> of them), \<open>hidden_before\<close> are the \<open>byteOffset\<close> bytes of the
  buffer in front of the window and \<open>hidden_after\<close> the bytes behind it. The property
  \<open>.buffer\<close> gives the whole buffer, the window or not.
\<close>

record uint8array =
  hidden_before :: "byte list"
  contents :: "byte list"
  hidden_after :: "byte list"

definition u8_length :: "uint8array \<Rightarrow> nat" where
  "u8_length a = length (contents a)"

definition u8_buffer :: "uint8array \<Rightarrow> byte list" where
  "u8_buffer a = hidden_before a @ contents a @ hidden_after a"

text \<open>\<open>new Uint8Array(n)\<close>: a fresh buffer of \<open>n\<close> zero bytes, seen whole.\<close>

definition new_Uint8Array :: "nat \<Rightarrow> uint8array" where
  "new_Uint8Array n = \<lparr>hidden_before = [], contents = replicate n 0, hidden_after = []\<rparr>"

text \<open>\<open>new Uint8Array(bytes)\<close> over a buffer or a byte sequence: seen whole.\<close>

definition Uint8Array_of :: "byte list \<Rightarrow> uint8array" where
  "Uint8Array_of bs = \<lparr>hidden_before = [], contents = bs, hidden_after = []\<rparr>"

text \<open>
  \<open>dst.set(src, offset)\<close> copies the elements of \<open>src\<close> into \<open>dst\<close> from \<open>offset\<close> on and
  throws a \<open>RangeError\<close> when they do not fit.
\<close>

definition u8_set :: "uint8array \<Rightarrow> uint8array \<Rightarrow> nat \<Rightarrow> js_error + uint8array" where
  "u8_set dst src offset =
     (if offset + u8_length src > u8_length dst then Inl RangeError
      else Inr (dst\<lparr>contents :=
                  take offset (contents dst) @ contents src
                    @ drop (offset + u8_length src) (contents dst)\<rparr>))"

subsection \<open>\<open>TextEncoder.encode\<close>\<close>

text \<open>
  The encoder first makes the string a sequence of Unicode scalar values (a surrogate
  pair is one code point, a lone surrogate becomes U+FFFD) and writes each in UTF-8.
\<close>

definition utf8_of_codepoint :: "nat \<Rightarrow> byte list" where
  "utf8_of_codepoint cp =
     (if cp < 0x80 then [of_nat cp]
      else if cp < 0x800 then [of_nat (0xC0 + cp div 64), of_nat (0x80 + cp mod 64)]
      else if cp < 0x10000 then
        [of_nat (0xE0 + cp div 4096), of_nat (0x80 + cp div 64 mod 64), of_nat (0x80 + cp mod 64)]
      else
        [of_nat (0xF0 + cp div 262144), of_nat (0x80 + cp div 4096 mod 64),
         of_nat (0x80 + cp div 64 mod 64), of_nat (0x80 + cp mod 64)])"

definition is_high_surrogate :: "code_unit \<Rightarrow> bool" where
  "is_high_surrogate c = (0xD800 \<le> c \<and> c \<le> 0xDBFF)"

definition is_low_surrogate :: "code_unit \<Rightarrow> bool" where
  "is_low_surrogate c = (0xDC00 \<le> c \<and> c \<le> 0xDFFF)"

fun utf8_encode :: "jsstring \<Rightarrow> byte list" where
  "utf8_encode [] = []"
| "utf8_encode [c] =
     (if is_high_surrogate c \<or> is_low_surrogate c then utf8_of_codepoint 0xFFFD
      else utf8_of_codepoint (unat c))"
| "utf8_encode (c # d # cs) =
     (if is_high_surrogate c \<and> is_low_surrogate d then
        utf8_of_codepoint (0x10000 + (unat c - 0xD800) * 0x400 + (unat d - 0xDC00))
          @ utf8_encode cs
      else if is_high_surrogate c \<or> is_low_surrogate c then
        utf8_of_codepoint 0xFFFD @ utf8_encode (d # cs)
      else utf8_of_codepoint (unat c) @ utf8_encode (d # cs))"

definition TextEncoder_encode :: "jsstring \<Rightarrow> uint8array" where
  "TextEncoder_encode s = Uint8Array_of (utf8_encode s)"

subsection \<open>\<open>crypto.subtle.digest('SHA-256', buffer)\<close>\<close>

text \<open>
  The digest primitive of the Web Crypto API is SHA-256 as FIPS 180-4 defines it, over
  the bytes of the buffer: the message is padded with the bit 1, zeros and its length in
  bits as a 64-bit big-endian number, cut in blocks of 64 bytes, and each block is
  compressed into the eight 32-bit words of the running hash.
\<close>

definition rotr :: "nat \<Rightarrow> u32 \<Rightarrow> u32" where
  "rotr n x = drop_bit n x OR push_bit (32 - n) x"

definition Ch :: "u32 \<Rightarrow> u32 \<Rightarrow> u32 \<Rightarrow> u32" where
  "Ch x y z = (x AND y) XOR (NOT x AND z)"

definition Maj :: "u32 \<Rightarrow> u32 \<Rightarrow> u32 \<Rightarrow> u32" where
  "Maj x y z = (x AND y) XOR (x AND z) XOR (y AND z)"

definition bsig0 :: "u32 \<Rightarrow> u32" where
  "bsig0 x = rotr 2 x XOR rotr 13 x XOR rotr 22 x"

definition bsig1 :: "u32 \<Rightarrow> u32" where
  "bsig1 x = rotr 6 x XOR rotr 11 x XOR rotr 25 x"

definition ssig0 :: "u32 \<Rightarrow> u32" where
  "ssig0 x = rotr 7 x XOR rotr 18 x XOR drop_bit 3 x"

definition ssig1 :: "u32 \<Rightarrow> u32" where
  "ssig1 x = rotr 17 x XOR rotr 19 x XOR drop_bit 10 x"

definition sha256_K :: "u32 list" where
  "sha256_K =
    [0x428A2F98, 0x71374491, 0xB5C0FBCF, 0xE9B5DBA5, 0x3956C25B, 0x59F111F1, 0x923F82A4, 0xAB1C5ED5,
     0xD807AA98, 0x12835B01, 0x243185BE, 0x550C7DC3, 0x72BE5D74, 0x80DEB1FE, 0x9BDC06A7, 0xC19BF174,
     0xE49B69C1, 0xEFBE4786, 0x0FC19DC6, 0x240CA1CC, 0x2DE92C6F, 0x4A7484AA, 0x5CB0A9DC, 0x76F988DA,
     0x983E5152, 0xA831C66D, 0xB00327C8, 0xBF597FC7, 0xC6E00BF3, 0xD5A79147, 0x06CA6351, 0x14292967,
     0x27B70A85, 0x2E1B2138, 0x4D2C6DFC, 0x53380D13, 0x650A7354, 0x766A0ABB, 0x81C2C92E, 0x92722C85,
     0xA2BFE8A1, 0xA81A664B, 0xC24B8B70, 0xC76C51A3, 0xD192E819, 0xD6990624, 0xF40E3585, 0x106AA070,
     0x19A4C116, 0x1E376C08, 0x2748774C, 0x34B0BCB5, 0x391C0CB3, 0x4ED8AA4A, 0x5B9CCA4F, 0x682E6FF3,
     0x748F82EE, 0x78A5636F, 0x84C87814, 0x8CC70208, 0x90BEFFFA, 0xA4506CEB, 0xBEF9A3F7, 0xC67178F2]"

definition sha256_H0 :: "u32 list" where
  "sha256_H0 =
    [0x6A09E667, 0xBB67AE85, 0x3C6EF372, 0xA54FF53A, 0x510E527F, 0x9B05688C, 0x1F83D9AB, 0x5BE0CD19]"

definition be32 :: "byte list \<Rightarrow> u32" where
  "be32 bs = foldl (\<lambda>acc b. push_bit 8 acc OR ucast b) 0 bs"

definition u32_bytes :: "u32 \<Rightarrow> byte list" where
  "u32_bytes w = [ucast (drop_bit 24 w), ucast (drop_bit 16 w), ucast (drop_bit 8 w), ucast w]"

definition u64_bytes :: "64 word \<Rightarrow> byte list" where
  "u64_bytes w = map (\<lambda>i. ucast (drop_bit (8 * (7 - i)) w)) [0..<8]"

definition sha256_pad :: "byte list \<Rightarrow> byte list" where
  "sha256_pad m =
     m @ [0x80] @ replicate ((119 - length m mod 64) mod 64) 0 @ u64_bytes (of_nat (8 * length m))"

fun chunks :: "nat \<Rightarrow> 'a list \<Rightarrow> 'a list list" where
  "chunks 0 xs = []"
| "chunks n [] = []"
| "chunks n xs = take n xs # chunks n (drop n xs)"

fun schedule :: "nat \<Rightarrow> u32 list \<Rightarrow> u32 list" where
  "schedule 0 w = w"
| "schedule (Suc k) w =
     schedule k (w @ [ssig1 (w ! (length w - 2)) + w ! (length w - 7)
                      + ssig0 (w ! (length w - 15)) + w ! (length w - 16)])"

fun round_step :: "u32 list \<Rightarrow> u32 \<times> u32 \<Rightarrow> u32 list" where
  "round_step [a, b, c, d, e, f, g, h] (k, w) =
     (let t1 = h + bsig1 e + Ch e f g + k + w;
          t2 = bsig0 a + Maj a b c
      in [t1 + t2, a, b, c, d + t1, e, f, g])"
| "round_step s _ = s"

definition compress :: "u32 list \<Rightarrow> byte list \<Rightarrow> u32 list" where
  "compress hs block =
     map2 (+) hs (foldl round_step hs (zip sha256_K (schedule 48 (map be32 (chunks 4 block)))))"

definition sha256 :: "byte list \<Rightarrow> byte list" where
  "sha256 m = concat (map u32_bytes (foldl compress sha256_H0 (chunks 64 (sha256_pad m))))"

section \<open>Hashing (\<^verbatim>\<open>generateSHA256\<close>, \<^verbatim>\<open>generateSignatureHash\<close>, \<^verbatim>\<open>abbreviateHash\<close>)\<close>

text \<open>\<open>Number.prototype.toString(16)\<close> on a non-negative integer.\<close>

definition hex_digit :: "nat \<Rightarrow> code_unit" where
  "hex_digit d = (if d < 10 then of_nat (0x30 + d) else of_nat (0x61 + (d - 10)))"

fun toString16 :: "nat \<Rightarrow> jsstring" where
  "toString16 n =
     (if n < 16 then [hex_digit n] else toString16 (n div 16) @ [hex_digit (n mod 16)])"

declare toString16.simps [simp del]

text \<open>
  \<open>s.padStart(targetLength, padString)\<close>: the pad string is repeated and cut to fill
  the missing length at the front.
\<close>

definition padStart :: "nat \<Rightarrow> jsstring \<Rightarrow> jsstring \<Rightarrow> jsstring" where
  "padStart targetLength padString s =
     take (targetLength - length s) (concat (replicate (targetLength - length s) padString)) @ s"

datatype sha_input = StringData jsstring | BytesData uint8array

definition generateSHA256 :: "sha_input \<Rightarrow> jsstring" where
  "generateSHA256 data =
     (let buffer = (case data of
                      StringData s \<Rightarrow> u8_buffer (TextEncoder_encode s)
                    | BytesData a \<Rightarrow> u8_buffer a);
          hashBuffer = sha256 buffer;
          hashArray = map unat hashBuffer;
          hashHex = concat (map (\<lambda>b. padStart 2 (lit ''0'') (toString16 b)) hashArray)
      in hashHex)"

definition generateSignatureHash ::
  "uint8array \<Rightarrow> jsstring \<Rightarrow> jsstring \<Rightarrow> jsstring \<Rightarrow> jsstring \<Rightarrow> js_error + jsstring" where
  "generateSignatureHash pdfBytes signerName signerCPF deviceId timestamp =
     (let signerPayload = lit ''|NAME:'' @ signerName @ lit ''|CPF:'' @ signerCPF
                            @ lit ''|DEVICE:'' @ deviceId @ lit ''|TIME:'' @ timestamp @ lit ''|'';
          signerBytes = TextEncoder_encode signerPayload;
          combinedBytes = new_Uint8Array (u8_length pdfBytes + u8_length signerBytes)
      in case u8_set combinedBytes pdfBytes 0 of
           Inl e \<Rightarrow> Inl e
         | Inr combinedBytes1 \<Rightarrow>
             (case u8_set combinedBytes1 signerBytes (u8_length pdfBytes) of
                Inl e \<Rightarrow> Inl e
              | Inr combinedBytes2 \<Rightarrow> Inr (generateSHA256 (BytesData combinedBytes2))))"

text \<open>
  The binding hash as the specification words it: the payload, and a byte written as
  its two lower-case hexadecimal digits.
\<close>

definition spec_payload :: "jsstring \<Rightarrow> jsstring \<Rightarrow> jsstring \<Rightarrow> jsstring \<Rightarrow> jsstring" where
  "spec_payload name taxId deviceToken signedAt =
     lit ''|NAME:'' @ name @ lit ''|CPF:'' @ taxId @ lit ''|DEVICE:'' @ deviceToken
       @ lit ''|TIME:'' @ signedAt @ lit ''|''"

definition lower_hex_digits :: jsstring where
  "lower_hex_digits = lit ''0123456789abcdef''"

definition spec_hex_byte :: "byte \<Rightarrow> jsstring" where
  "spec_hex_byte b = [lower_hex_digits ! (unat b div 16), lower_hex_digits ! (unat b mod 16)]"

definition spec_hex :: "byte list \<Rightarrow> jsstring" where
  "spec_hex bs = concat (map spec_hex_byte bs)"

text \<open>
  \<open>s.substring(start, end)\<close>: each index is clamped to \<open>0 .. length\<close>, the smaller of the
  two is the start; a missing \<open>end\<close> is the length.
\<close>

definition clamp_index :: "nat \<Rightarrow> int \<Rightarrow> nat" where
  "clamp_index len i = (if i < 0 then 0 else min (nat i) len)"

definition substring :: "jsstring \<Rightarrow> int \<Rightarrow> int option \<Rightarrow> jsstring" where
  "substring s start end =
     (let len = length s;
          a = clamp_index len start;
          b = (case end of None \<Rightarrow> len | Some e \<Rightarrow> clamp_index len e)
      in take (max a b - min a b) (drop (min a b) s))"

definition abbreviateHash :: "jsstring \<Rightarrow> int \<Rightarrow> jsstring" where
  "abbreviateHash hash len =
     (if int (length hash) \<le> len * 2 + 3 then hash
      else substring hash 0 (Some len) @ lit ''...'' @ substring hash (int (length hash) - len) None)"

section \<open>Signer data (\<^verbatim>\<open>normalizeName\<close>, \<^verbatim>\<open>normalizeCPF\<close>)\<close>

text \<open>
  White space as \<open>String.prototype.trim\<close> and the class \<open>\s\<close> of regular expressions
  have it: the ECMAScript WhiteSpace and LineTerminator code points, all of them single
  code units.
\<close>

definition is_ws :: "code_unit \<Rightarrow> bool" where
  "is_ws c = (c \<in> set [0x09, 0x0A, 0x0B, 0x0C, 0x0D, 0x20, 0xA0, 0x1680, 0x2028, 0x2029,
                        0x202F, 0x205F, 0x3000, 0xFEFF]
              \<or> (0x2000 \<le> c \<and> c \<le> 0x200A))"

definition trim :: "jsstring \<Rightarrow> jsstring" where
  "trim s = rev (dropWhile is_ws (rev (dropWhile is_ws s)))"

text \<open>\<open>s.replace(/\s+/g, ' ')\<close>: every maximal run of white space becomes one space.\<close>

function replace_ws_runs :: "jsstring \<Rightarrow> jsstring" where
  "replace_ws_runs [] = []"
| "replace_ws_runs (c # cs) =
     (if is_ws c then 0x20 # replace_ws_runs (dropWhile is_ws cs) else c # replace_ws_runs cs)"
  by pat_completeness auto
termination
  by (relation "measure length") (auto simp: length_dropWhile_le less_Suc_eq_le)

text \<open>
  \<open>String.prototype.toUpperCase\<close> applies the Unicode case mapping of the JavaScript
  engine; the table is not part of this repository, so the function is a parameter of
  \<open>normalizeName\<close> and of the hash formatting below.
\<close>

definition normalizeName :: "(jsstring \<Rightarrow> jsstring) \<Rightarrow> jsstring \<Rightarrow> jsstring" where
  "normalizeName toUpperCase name = toUpperCase (replace_ws_runs (trim name))"

text \<open>\<open>cpf.replace(/\D/g, '')\<close>: only the ASCII digits stay.\<close>

definition is_digit :: "code_unit \<Rightarrow> bool" where
  "is_digit c = (0x30 \<le> c \<and> c \<le> 0x39)"

definition normalizeCPF :: "jsstring \<Rightarrow> jsstring" where
  "normalizeCPF cpf = filter is_digit cpf"

text \<open>
  What the theorems on \<open>normalizeName\<close> take for granted of the case mapping: it is
  idempotent, it maps the empty string and nothing else to the empty string, it leaves
  every white space character where it is and maps what stands before and behind it
  separately, and it brings no white space into a string that has none.
\<close>

definition case_mapping :: "(jsstring \<Rightarrow> jsstring) \<Rightarrow> bool" where
  "case_mapping up =
     ((\<forall>s. up (up s) = up s)
      \<and> (\<forall>s. (up s = []) = (s = []))
      \<and> (\<forall>a w b. is_ws w \<longrightarrow> up (a @ w # b) = up a @ w # up b)
      \<and> (\<forall>s. list_ex is_ws (up s) \<longrightarrow> list_ex is_ws s))"

text \<open>The case mapping restricted to ASCII, to run the definitions on.\<close>

definition ascii_upper_unit :: "code_unit \<Rightarrow> code_unit" where
  "ascii_upper_unit c = (if 0x61 \<le> c \<and> c \<le> 0x7A then c - 0x20 else c)"

definition ascii_toUpperCase :: "jsstring \<Rightarrow> jsstring" where
  "ascii_toUpperCase s = map ascii_upper_unit s"

text \<open>The normal form of a name: words without white space, one space between two.\<close>

fun tidy :: "jsstring \<Rightarrow> bool" where
  "tidy [] = True"
| "tidy [c] = (\<not> is_ws c)"
| "tidy (c # d # cs) =
     (\<not> is_ws c \<and> (if is_ws d then d = 0x20 \<and> cs \<noteq> [] \<and> tidy cs else tidy (d # cs)))"

section \<open>The signature log (\<^verbatim>\<open>src/utils/storage.ts\<close>)\<close>

record signatureData =
  sd_id :: jsstring
  sd_name :: jsstring
  sd_cpf :: jsstring
  sd_deviceId :: jsstring
  sd_timestamp :: jsstring
  sd_hash :: jsstring

record pdfMetadata =
  fileName :: jsstring
  fileSize :: int
  lastModified :: int

record signatureLog =
  documentId :: jsstring
  pdfMetadata :: pdfMetadata
  signatures :: "signatureData list"
  createdAt :: jsstring
  updatedAt :: jsstring

text \<open>
  \<open>addSignatureToLog\<close> builds a new object with the spread syntax and assigns to nothing
  of its argument \<open>log\<close> (here \<open>sigLog\<close>): it is a function of the value of the log. Its first argument here is the
  reading of the clock, \<open>new Date().toISOString()\<close>.
\<close>

definition addSignatureToLog :: "jsstring \<Rightarrow> signatureLog \<Rightarrow> signatureData \<Rightarrow> signatureLog" where
  "addSignatureToLog now sigLog signature =
     sigLog\<lparr>signatures := signatures sigLog @ [signature], updatedAt := now\<rparr>"

section \<open>PDF documents (\<^verbatim>\<open>src/services/pdf.ts\<close>)\<close>

text \<open>
  Of a document of the PDF library the model keeps the sequence of its pages, and of a
  page its size, the content it was parsed with (empty for a page the library has just
  made) and the drawing operations applied to it since, in order. Sizes and coordinates
  are real numbers: the source adds and subtracts page sizes and small constants, and the
  rounding of its floating-point numbers is left out.
\<close>

datatype font = Helvetica | HelveticaBold

type_synonym rgb = "real \<times> real \<times> real"

datatype draw_op =
    DrawText jsstring real real real font rgb
  | DrawRectangle real real real real rgb "(rgb \<times> real) option"
  | DrawLine "real \<times> real" "real \<times> real" real rgb

text \<open>
  \<open>DrawText text x y size font color\<close>, \<open>DrawRectangle x y width height color border\<close>
  with the border colour and width when there is a border, and
  \<open>DrawLine start end thickness color\<close>.
\<close>

record pdfpage =
  page_width :: real
  page_height :: real
  page_content :: "byte list"
  page_ops :: "draw_op list"

text \<open>
  \<open>PDFDocument.load\<close> also accepts bytes that hold no document catalog; the object it
  returns then has no page tree, and \<open>getPages\<close>, with it \<open>getPageCount\<close>, throws a
  \<open>TypeError\<close> on it.
\<close>

record pdfdoc =
  has_catalog :: bool
  pages :: "pdfpage list"

definition getPages :: "pdfdoc \<Rightarrow> js_error + pdfpage list" where
  "getPages pdfDoc = (if has_catalog pdfDoc then Inr (pages pdfDoc) else Inl TypeError)"

text \<open>
  What the functions use of the browser and of the PDF library without this repository
  defining it: the parser (\<open>None\<close> when \<open>PDFDocument.load\<close> throws) and the serialiser
  of the library, whether the encoding of a font has every character of a text (the
  library throws when a text is measured or drawn that its font cannot encode) and the
  width of a text in a font, the case mapping of the engine, the pt-BR rendering of a
  timestamp, the rendering of the clock at the time of the call, and \<open>toFixed(2)\<close>.
\<close>

record platform =
  PDFDocument_load :: "byte list \<Rightarrow> pdfdoc option"
  PDFDocument_save :: "pdfdoc \<Rightarrow> byte list"
  canEncode :: "font \<Rightarrow> jsstring \<Rightarrow> bool"
  widthOfTextAtSize :: "font \<Rightarrow> jsstring \<Rightarrow> real \<Rightarrow> real"
  String_toUpperCase :: "jsstring \<Rightarrow> jsstring"
  Date_toLocaleString :: "jsstring \<Rightarrow> jsstring"
  now_toLocaleString :: jsstring
  Number_toFixed2 :: "real \<Rightarrow> jsstring"

definition MARGIN :: real where "MARGIN = 50"
definition LINE_HEIGHT :: real where "LINE_HEIGHT = 14"
definition SECTION_SPACING :: real where "SECTION_SPACING = 20"
definition TITLE_FONT_SIZE :: real where "TITLE_FONT_SIZE = 16"
definition SUBTITLE_FONT_SIZE :: real where "SUBTITLE_FONT_SIZE = 12"
definition NORMAL_FONT_SIZE :: real where "NORMAL_FONT_SIZE = 9"
definition SMALL_FONT_SIZE :: real where "SMALL_FONT_SIZE = 8"

definition HEADER_MARGIN_TOP :: real where "HEADER_MARGIN_TOP = 15"
definition HEADER_FONT_SIZE :: real where "HEADER_FONT_SIZE = 7"
definition HEADER_BG_HEIGHT :: real where "HEADER_BG_HEIGHT = 18"

lemmas config_defs =
  MARGIN_def LINE_HEIGHT_def SECTION_SPACING_def TITLE_FONT_SIZE_def SUBTITLE_FONT_SIZE_def
  NORMAL_FONT_SIZE_def SMALL_FONT_SIZE_def HEADER_MARGIN_TOP_def HEADER_FONT_SIZE_def
  HEADER_BG_HEIGHT_def

subsection \<open>\<^verbatim>\<open>loadPDF\<close>, \<^verbatim>\<open>validatePDF\<close>\<close>

definition loadPDF_message :: jsstring where
  "loadPDF_message =
     lit ''N'' @ [0xE3] @ lit ''o foi poss'' @ [0xED]
       @ lit ''vel carregar o PDF. O arquivo pode estar corrompido ou protegido.''"

definition loadPDF :: "platform \<Rightarrow> uint8array \<Rightarrow> js_error + pdfdoc" where
  "loadPDF P pdfBytes =
     (case PDFDocument_load P (contents pdfBytes) of
        Some pdfDoc \<Rightarrow> Inr pdfDoc
      | None \<Rightarrow> Inl (Error loadPDF_message))"

definition validatePDF :: "platform \<Rightarrow> uint8array \<Rightarrow> bool" where
  "validatePDF P pdfBytes = (case loadPDF P pdfBytes of Inr _ \<Rightarrow> True | Inl _ \<Rightarrow> False)"

definition getPDFPageCount :: "platform \<Rightarrow> uint8array \<Rightarrow> js_error + nat" where
  "getPDFPageCount P pdfBytes =
     (case loadPDF P pdfBytes of
        Inl e \<Rightarrow> Inl e
      | Inr pdfDoc \<Rightarrow> (case getPages pdfDoc of Inl e \<Rightarrow> Inl e | Inr ps \<Rightarrow> Inr (length ps)))"

subsection \<open>\<^verbatim>\<open>formatHashTotvs\<close>, \<^verbatim>\<open>generateTotvsHash\<close>, \<^verbatim>\<open>formatCPF\<close>\<close>

text \<open>
  \<open>s.match(/.{1,2}/g)\<close>: the matches from left to right, each of two characters when two
  follow each other and of one otherwise; the dot matches no line terminator. No match
  at all is \<open>null\<close>, the empty list here.
\<close>

definition is_line_terminator :: "code_unit \<Rightarrow> bool" where
  "is_line_terminator c = (c \<in> set [0x0A, 0x0D, 0x2028, 0x2029])"

fun match_pairs :: "jsstring \<Rightarrow> jsstring list" where
  "match_pairs [] = []"
| "match_pairs [c] = (if is_line_terminator c then [] else [[c]])"
| "match_pairs (c # d # cs) =
     (if is_line_terminator c then match_pairs (d # cs)
      else if is_line_terminator d then [c] # match_pairs cs
      else [c, d] # match_pairs cs)"

fun join :: "jsstring \<Rightarrow> jsstring list \<Rightarrow> jsstring" where
  "join sep [] = []"
| "join sep [x] = x"
| "join sep (x # y # ys) = x @ sep @ join sep (y # ys)"

definition formatHashTotvs :: "(jsstring \<Rightarrow> jsstring) \<Rightarrow> jsstring \<Rightarrow> jsstring" where
  "formatHashTotvs toUpperCase hash =
     (case match_pairs (toUpperCase hash) of
        [] \<Rightarrow> hash
      | m # ms \<Rightarrow> (if join (lit ''-'') (m # ms) = [] then hash else join (lit ''-'') (m # ms)))"

definition generateTotvsHash :: "(jsstring \<Rightarrow> jsstring) \<Rightarrow> jsstring \<Rightarrow> jsstring" where
  "generateTotvsHash toUpperCase hash =
     (let bytes = substring hash 0 (Some 40) in formatHashTotvs toUpperCase bytes)"

text \<open>
  \<open>clean.replace(/(\d{3})(\d{3})(\d{3})(\d{2})/, '$1.$2.$3-$4')\<close> on the eleven digits
  of \<open>clean\<close>.
\<close>

definition formatCPF :: "jsstring \<Rightarrow> jsstring" where
  "formatCPF cpf =
     (let clean = normalizeCPF cpf
      in if length clean \<noteq> 11 then cpf
         else take 3 clean @ lit ''.'' @ take 3 (drop 3 clean) @ lit ''.''
                @ take 3 (drop 6 clean) @ lit ''-'' @ drop 9 clean)"

text \<open>\<open>fileName.replace(/\.pdf$/i, '')\<close>.\<close>

definition is_dot_pdf :: "jsstring \<Rightarrow> bool" where
  "is_dot_pdf s =
     (length s = 4 \<and> s ! 0 = 0x2E \<and> s ! 1 \<in> set [0x70, 0x50] \<and> s ! 2 \<in> set [0x64, 0x44]
      \<and> s ! 3 \<in> set [0x66, 0x46])"

definition strip_pdf_suffix :: "jsstring \<Rightarrow> jsstring" where
  "strip_pdf_suffix s =
     (if 4 \<le> length s \<and> is_dot_pdf (drop (length s - 4) s) then take (length s - 4) s else s)"

text \<open>A non-negative integer in a template literal: its decimal digits.\<close>

fun toString10 :: "nat \<Rightarrow> jsstring" where
  "toString10 n =
     (if n < 10 then [of_nat (0x30 + n)] else toString10 (n div 10) @ [of_nat (0x30 + n mod 10)])"

declare toString10.simps [simp del]

subsection \<open>\<^verbatim>\<open>detectOriginalPageSize\<close>\<close>

definition PageSizes_A4 :: "real \<times> real" where
  "PageSizes_A4 = (595.28, 841.89)"

definition getSize :: "pdfpage \<Rightarrow> real \<times> real" where
  "getSize page = (page_width page, page_height page)"

text \<open>
  The source counts in a \<open>Map\<close> from the string \<open>`${width}x${height}`\<close> to the size and
  its count; a \<open>Map\<close> keeps its keys in the order of their insertion, so it is an
  association list here. Two finite numbers have the same decimal rendering exactly when
  they are equal, and no rendering contains an \<open>x\<close>, so two keys are equal exactly when
  the two sizes are: the key of the model is the pair.
\<close>

type_synonym sizeFrequency = "((real \<times> real) \<times> (real \<times> real) \<times> nat) list"

definition sizeKey :: "real \<Rightarrow> real \<Rightarrow> real \<times> real" where
  "sizeKey width height = (width, height)"

definition count_page :: "sizeFrequency \<Rightarrow> pdfpage \<Rightarrow> sizeFrequency" where
  "count_page sizeFrequency page =
     (let (width, height) = getSize page;
          key = sizeKey width height
      in if key \<in> set (map fst sizeFrequency)
         then map (\<lambda>(k, size, count). if k = key then (k, size, count + 1) else (k, size, count))
                sizeFrequency
         else sizeFrequency @ [(key, (width, height), 1)])"

definition most_common_step :: "(real \<times> real) \<times> nat \<Rightarrow> (real \<times> real) \<times> nat \<Rightarrow> (real \<times> real) \<times> nat" where
  "most_common_step acc entry =
     (let (mostCommonSize, maxCount) = acc; (size, count) = entry
      in if count > maxCount then (size, count) else (mostCommonSize, maxCount))"

definition detectOriginalPageSize :: "pdfdoc \<Rightarrow> js_error + real \<times> real" where
  "detectOriginalPageSize pdfDoc =
     (case getPages pdfDoc of
        Inl e \<Rightarrow> Inl e
      | Inr ps \<Rightarrow>
          Inr (if length ps = 0 then PageSizes_A4
               else if length ps = 1 then getSize (hd ps)
               else let sizeFrequency = foldl count_page [] ps;
                        (mostCommonSize, maxCount) =
                           foldl most_common_step ((0, 0), 0) (map snd sizeFrequency)
                    in mostCommonSize))"

text \<open>
  The position at which a size is first met in a sequence of sizes, to say which of two
  sizes the specification calls first-encountered.
\<close>

definition first_index :: "'a list \<Rightarrow> 'a \<Rightarrow> nat" where
  "first_index xs x = length (takeWhile (\<lambda>y. y \<noteq> x) xs)"

subsection \<open>\<^verbatim>\<open>createProtocolPage\<close>\<close>

text \<open>
  \<open>pdfDoc.insertPage(index, [width, height])\<close> puts a new empty page at \<open>index\<close>; the source calls
  it with 0 and with the number of pages, both within the range the library accepts.
\<close>

definition blank_page :: "real \<times> real \<Rightarrow> pdfpage" where
  "blank_page dims =
     \<lparr>page_width = fst dims, page_height = snd dims, page_content = [], page_ops = []\<rparr>"

definition insertPage :: "pdfdoc \<Rightarrow> nat \<Rightarrow> real \<times> real \<Rightarrow> pdfdoc" where
  "insertPage pdfDoc index dims =
     pdfDoc\<lparr>pages := take index (pages pdfDoc) @ [blank_page dims] @ drop index (pages pdfDoc)\<rparr>"

text \<open>A drawing method called on the page object that stands at \<open>index\<close>.\<close>

definition draw_on :: "nat \<Rightarrow> draw_op \<Rightarrow> pdfdoc \<Rightarrow> pdfdoc" where
  "draw_on index op pdfDoc =
     pdfDoc\<lparr>pages := (pages pdfDoc)
        [index := (pages pdfDoc ! index)\<lparr>page_ops := page_ops (pages pdfDoc ! index) @ [op]\<rparr>]\<rparr>"

text \<open>
  The state of \<open>createProtocolPage\<close>: the document and the cursor \<open>y\<close>. The constant
  \<open>protocolPage\<close> of the source is the page object that \<open>insertPage(0, ...)\<close> returned;
  every later insertion is at the end of the document, so this object stays the page at
  index 0, and the closures \<open>drawLine\<close> and \<open>drawText\<close>, which draw on \<open>protocolPage\<close>,
  draw on that page. A statement gives the next state, or the error it throws.
\<close>

record pstate =
  st_doc :: pdfdoc
  st_y :: real

definition protocolPage :: nat where
  "protocolPage = 0"

definition drawLine :: "real \<Rightarrow> pstate \<Rightarrow> js_error + pstate" where
  "drawLine pageWidth st =
     Inr (st\<lparr>st_doc := draw_on protocolPage
                     (DrawLine (MARGIN, st_y st) (pageWidth - MARGIN, st_y st) 0.5 (0.8, 0.8, 0.8))
                     (st_doc st),
             st_y := st_y st - 10\<rparr>)"

datatype fontType = Normal | Bold

record text_options =
  opt_size :: real
  opt_fontType :: fontType
  opt_color :: rgb
  opt_indent :: real

text \<open>The options \<open>drawText\<close> takes when the caller gives none.\<close>

definition default_options :: text_options where
  "default_options =
     \<lparr>opt_size = NORMAL_FONT_SIZE, opt_fontType = Normal, opt_color = (0.2, 0.2, 0.2),
      opt_indent = 0\<rparr>"

text \<open>
  \<open>protocolPage.drawText\<close> throws when the font cannot encode the text; the cursor then
  does not matter any more.
\<close>

definition drawText :: "platform \<Rightarrow> jsstring \<Rightarrow> text_options \<Rightarrow> pstate \<Rightarrow> js_error + pstate" where
  "drawText P text options st =
     (let usedFont = (if opt_fontType options = Bold then HelveticaBold else Helvetica)
      in if canEncode P usedFont text
         then Inr (st\<lparr>st_doc := draw_on protocolPage
                                    (DrawText text (MARGIN + opt_indent options) (st_y st)
                                       (opt_size options) usedFont (opt_color options))
                                    (st_doc st),
                       st_y := st_y st - LINE_HEIGHT\<rparr>)
         else Inl (EncodingError text))"

text \<open>
  The statement \<open>y -= d\<close>, and a sequence of statements: the first error ends it.
\<close>

definition move_down :: "real \<Rightarrow> pstate \<Rightarrow> js_error + pstate" where
  "move_down d st = Inr (st\<lparr>st_y := st_y st - d\<rparr>)"

fun run :: "(pstate \<Rightarrow> js_error + pstate) list \<Rightarrow> pstate \<Rightarrow> js_error + pstate" where
  "run [] st = Inr st"
| "run (stmt # stmts) st = (case stmt st of Inl e \<Rightarrow> Inl e | Inr st' \<Rightarrow> run stmts st')"

declare run.simps [simp del]

text \<open>The body of the loop over the signatures, with the check for a new page first.\<close>

definition draw_signature ::
  "platform \<Rightarrow> real \<times> real \<Rightarrow> signatureData \<Rightarrow> pstate \<Rightarrow> js_error + pstate" where
  "draw_signature P dims signature st =
     (let (pageWidth, pageHeight) = dims;
          st1 = (if st_y st < MARGIN + 150
                 then st\<lparr>st_doc := insertPage (st_doc st) (length (pages (st_doc st)))
                                      (pageWidth, pageHeight),
                         st_y := pageHeight - MARGIN\<rparr>
                 else st);
          formattedDate = Date_toLocaleString P (sd_timestamp signature)
      in run
          [drawText P (lit ''Nome: '' @ sd_name signature @ lit '' - CPF/CNPJ: ''
                         @ formatCPF (sd_cpf signature))
             (default_options\<lparr>opt_indent := 10, opt_fontType := Bold\<rparr>),
           drawText P (lit ''Data: '' @ formattedDate) (default_options\<lparr>opt_indent := 10\<rparr>),
           drawText P (lit ''Status: Assinado eletronicamente'')
             (default_options\<lparr>opt_indent := 10, opt_color := (0.1, 0.5, 0.2)\<rparr>),
           drawText P (lit ''Tipo de Autentica'' @ [0xE7, 0xE3]
                         @ lit ''o: Utilizando identificador '' @ [0xFA]
                         @ lit ''nico do dispositivo'')
             (default_options\<lparr>opt_indent := 10, opt_size := SMALL_FONT_SIZE\<rparr>),
           drawText P (lit ''Device ID: '' @ sd_deviceId signature)
             (default_options\<lparr>opt_indent := 10, opt_size := SMALL_FONT_SIZE\<rparr>),
           drawText P (lit ''Hash da Assinatura: '' @ abbreviateHash (sd_hash signature) 16)
             (default_options\<lparr>opt_indent := 10, opt_size := SMALL_FONT_SIZE,
                opt_color := (0.4, 0.4, 0.4)\<rparr>),
           move_down 10]
          st1)"

definition draw_header_section :: "platform \<Rightarrow> real \<Rightarrow> pstate \<Rightarrow> js_error + pstate" where
  "draw_header_section P pageWidth =
     run [drawText P (lit ''Protocolo de Assinaturas'')
            (default_options\<lparr>opt_size := TITLE_FONT_SIZE, opt_fontType := Bold,
               opt_color := (0.1, 0.3, 0.5)\<rparr>),
          move_down 5,
          drawLine pageWidth,
          move_down 10]"

definition draw_document_section ::
  "platform \<Rightarrow> real \<Rightarrow> signatureLog \<Rightarrow> jsstring \<Rightarrow> jsstring \<Rightarrow> pstate \<Rightarrow> js_error + pstate" where
  "draw_document_section P pageWidth sigLog documentHash totvsHash =
     (let envelopeName = strip_pdf_suffix (fileName (pdfMetadata sigLog));
          author = (if length (signatures sigLog) > 0 then sd_name (hd (signatures sigLog))
                    else lit ''Sistema Local'');
          status = (if length (signatures sigLog) > 0 then lit ''Finalizado'' else lit ''Pendente'')
      in run
          [drawText P (lit ''Documento'')
             (default_options\<lparr>opt_size := SUBTITLE_FONT_SIZE, opt_fontType := Bold,
                opt_color := (0.2, 0.4, 0.6)\<rparr>),
           move_down 5,
           drawText P (lit ''Nome do envelope: '' @ envelopeName)
             (default_options\<lparr>opt_indent := 10\<rparr>),
           drawText P (lit ''Autor: '' @ author) (default_options\<lparr>opt_indent := 10\<rparr>),
           drawText P (lit ''Status: '' @ status) (default_options\<lparr>opt_indent := 10\<rparr>),
           drawText P (lit ''HASH TOTVS: '' @ totvsHash)
             (default_options\<lparr>opt_indent := 10, opt_size := SMALL_FONT_SIZE\<rparr>),
           drawText P (lit ''SHA256: '' @ documentHash)
             (default_options\<lparr>opt_indent := 10, opt_size := SMALL_FONT_SIZE\<rparr>),
           move_down SECTION_SPACING,
           drawLine pageWidth,
           move_down 10])"

definition draw_signatures_section ::
  "platform \<Rightarrow> real \<times> real \<Rightarrow> signatureLog \<Rightarrow> pstate \<Rightarrow> js_error + pstate" where
  "draw_signatures_section P dims sigLog =
     run [drawText P (lit ''Assinaturas'')
            (default_options\<lparr>opt_size := SUBTITLE_FONT_SIZE, opt_fontType := Bold,
               opt_color := (0.2, 0.4, 0.6)\<rparr>),
          move_down 5,
          (if length (signatures sigLog) = 0
           then drawText P (lit ''Nenhuma assinatura registrada.'')
                  (default_options\<lparr>opt_indent := 10, opt_color := (0.5, 0.5, 0.5)\<rparr>)
           else run (map (draw_signature P dims) (signatures sigLog))),
          move_down SECTION_SPACING,
          drawLine (fst dims),
          move_down 10]"

text \<open>
  The box with the hash: both are drawn at positions taken from \<open>boxY = y - 25\<close>, the
  text in the bold font by \<open>protocolPage.drawText\<close> itself.
\<close>

definition draw_hash_box :: "platform \<Rightarrow> real \<Rightarrow> jsstring \<Rightarrow> pstate \<Rightarrow> js_error + pstate" where
  "draw_hash_box P maxWidth totvsHash st =
     (let boxY = st_y st - 25
      in if canEncode P HelveticaBold (lit ''HASH TOTVS: '' @ totvsHash)
         then Inr (st\<lparr>st_doc :=
                        draw_on protocolPage
                          (DrawText (lit ''HASH TOTVS: '' @ totvsHash) (MARGIN + 20) (boxY + 10)
                             SMALL_FONT_SIZE HelveticaBold (0.2, 0.2, 0.2))
                          (draw_on protocolPage
                             (DrawRectangle (MARGIN + 10) boxY (maxWidth - 20) 30
                                (0.97, 0.97, 0.97) (Some ((0.6, 0.6, 0.6), 1)))
                             (st_doc st)),
                      st_y := boxY - 20\<rparr>)
         else Inl (EncodingError (lit ''HASH TOTVS: '' @ totvsHash)))"

definition draw_authenticity_section ::
  "platform \<Rightarrow> real \<Rightarrow> signatureLog \<Rightarrow> jsstring \<Rightarrow> pstate \<Rightarrow> js_error + pstate" where
  "draw_authenticity_section P maxWidth sigLog totvsHash =
     (let footer = default_options\<lparr>opt_size := SMALL_FONT_SIZE, opt_color := (0.5, 0.5, 0.5)\<rparr>
      in run
          [drawText P (lit ''Autenticidade'')
             (default_options\<lparr>opt_size := SUBTITLE_FONT_SIZE, opt_fontType := Bold,
                opt_color := (0.2, 0.4, 0.6)\<rparr>),
           move_down 5,
           drawText P (lit ''Para verificar a autenticidade do documento, utilize o hash abaixo:'')
             (default_options\<lparr>opt_indent := 10, opt_size := SMALL_FONT_SIZE\<rparr>),
           move_down 5,
           draw_hash_box P maxWidth totvsHash,
           drawText P (lit ''Este documento foi assinado eletronicamente.'') footer,
           drawText P (lit ''Gerado em: '' @ now_toLocaleString P) footer,
           move_down 20,
           drawText P (lit ''Arquivo original: '' @ fileName (pdfMetadata sigLog)) footer,
           drawText P (lit ''Tamanho: ''
                         @ Number_toFixed2 P (real_of_int (fileSize (pdfMetadata sigLog)) / 1024)
                         @ lit '' KB'') footer,
           drawText P (lit ''Total de assinaturas: '' @ toString10 (length (signatures sigLog)))
             footer])"

text \<open>
  \<open>detectOriginalPageSize\<close> is the first call that needs the pages of the document; on a
  document without catalog its error ends \<open>createProtocolPage\<close>.
\<close>

definition createProtocolPage ::
  "platform \<Rightarrow> pdfdoc \<Rightarrow> signatureLog \<Rightarrow> jsstring \<Rightarrow> js_error + pdfdoc" where
  "createProtocolPage P pdfDoc sigLog documentHash =
     (case detectOriginalPageSize pdfDoc of
        Inl e \<Rightarrow> Inl e
      | Inr (pageWidth, pageHeight) \<Rightarrow>
          (let pdfDoc1 = insertPage pdfDoc 0 (pageWidth, pageHeight);
               margin = MARGIN;
               y = pageHeight - margin;
               maxWidth = pageWidth - margin * 2;
               totvsHash = generateTotvsHash (String_toUpperCase P) documentHash
           in case run [draw_header_section P pageWidth,
                        draw_document_section P pageWidth sigLog documentHash totvsHash,
                        draw_signatures_section P (pageWidth, pageHeight) sigLog,
                        draw_authenticity_section P maxWidth sigLog totvsHash]
                     \<lparr>st_doc = pdfDoc1, st_y = y\<rparr> of
                Inl e \<Rightarrow> Inl e
              | Inr st \<Rightarrow> Inr (st_doc st)))"

subsection \<open>\<^verbatim>\<open>drawHashHeaderOnAllPages\<close>, \<^verbatim>\<open>finalizePDFWithProtocol\<close>, \<^verbatim>\<open>applySignatureStamp\<close>\<close>

text \<open>
  The body of the loop over the pages, for the page at index \<open>i\<close> of \<open>n\<close> pages:
  \<open>font.widthOfTextAtSize\<close> throws on a text the font cannot encode, before the text is
  drawn.
\<close>

definition draw_hash_header ::
  "platform \<Rightarrow> jsstring \<Rightarrow> font \<Rightarrow> nat \<Rightarrow> nat \<Rightarrow> pdfpage \<Rightarrow> js_error + pdfpage" where
  "draw_hash_header P totvsHash font n i page =
     (let (width, height) = getSize page;
          hashText = lit ''HASH: '' @ totvsHash;
          textWidth = widthOfTextAtSize P font hashText HEADER_FONT_SIZE;
          textX = (width - textWidth) / 2;
          pageText = lit ''P'' @ [0xE1] @ lit ''gina '' @ toString10 (i + 1) @ lit '' de ''
                       @ toString10 n;
          pageTextWidth = widthOfTextAtSize P font pageText HEADER_FONT_SIZE
      in if \<not> canEncode P font hashText then Inl (EncodingError hashText)
         else if \<not> canEncode P font pageText then Inl (EncodingError pageText)
         else Inr (page\<lparr>page_ops := page_ops page @
           [DrawRectangle 0 (height - HEADER_BG_HEIGHT) width HEADER_BG_HEIGHT (0.95, 0.95, 0.95) None,
            DrawText hashText textX (height - HEADER_MARGIN_TOP) HEADER_FONT_SIZE font
              (0.3, 0.3, 0.3),
            DrawText pageText (width - pageTextWidth - 10) (height - HEADER_MARGIN_TOP)
              HEADER_FONT_SIZE font (0.5, 0.5, 0.5)]\<rparr>))"

text \<open>The results of the passes of a loop, up to the first error.\<close>

fun collect :: "(js_error + 'a) list \<Rightarrow> js_error + 'a list" where
  "collect [] = Inr []"
| "collect (r # rs) =
     (case r of
        Inl e \<Rightarrow> Inl e
      | Inr x \<Rightarrow> (case collect rs of Inl e \<Rightarrow> Inl e | Inr xs \<Rightarrow> Inr (x # xs)))"

definition drawHashHeaderOnAllPages ::
  "platform \<Rightarrow> pdfdoc \<Rightarrow> jsstring \<Rightarrow> font \<Rightarrow> js_error + pdfdoc" where
  "drawHashHeaderOnAllPages P pdfDoc documentHash font =
     (case getPages pdfDoc of
        Inl e \<Rightarrow> Inl e
      | Inr ps \<Rightarrow>
          (let totvsHash = generateTotvsHash (String_toUpperCase P) documentHash
           in case collect (map (\<lambda>i. draw_hash_header P totvsHash font (length ps) i (ps ! i))
                              [0..<length ps]) of
                Inl e \<Rightarrow> Inl e
              | Inr ps' \<Rightarrow> Inr (pdfDoc\<lparr>pages := ps'\<rparr>)))"

text \<open>
  The hash of the document in \<open>finalizePDFWithProtocol\<close>: the digest of
  \<open>pdfBytes.buffer\<close>, each byte as \<open>b.toString(16).padStart(2, '0')\<close>.
\<close>

definition documentHash_of :: "uint8array \<Rightarrow> jsstring" where
  "documentHash_of pdfBytes =
     (let hashBuffer = sha256 (u8_buffer pdfBytes);
          hashArray = map unat hashBuffer
      in concat (map (\<lambda>b. padStart 2 (lit ''0'') (toString16 b)) hashArray))"

text \<open>
  The document \<open>finalizePDFWithProtocol\<close> hands to \<open>pdfDoc.save()\<close>, when the protocol
  page and the headers could be drawn.
\<close>

definition finalized_document ::
  "platform \<Rightarrow> pdfdoc \<Rightarrow> uint8array \<Rightarrow> signatureLog \<Rightarrow> js_error + pdfdoc" where
  "finalized_document P pdfDoc pdfBytes sigLog =
     (let documentHash = documentHash_of pdfBytes;
          font = Helvetica
      in case createProtocolPage P pdfDoc sigLog documentHash of
           Inl e \<Rightarrow> Inl e
         | Inr pdfDoc1 \<Rightarrow> drawHashHeaderOnAllPages P pdfDoc1 documentHash font)"

definition finalizePDFWithProtocol :: "platform \<Rightarrow> uint8array \<Rightarrow> signatureLog \<Rightarrow> js_error + uint8array" where
  "finalizePDFWithProtocol P pdfBytes sigLog =
     (case loadPDF P pdfBytes of
        Inl e \<Rightarrow> Inl e
      | Inr pdfDoc \<Rightarrow>
          (case finalized_document P pdfDoc pdfBytes sigLog of
             Inl e \<Rightarrow> Inl e
           | Inr pdfDoc2 \<Rightarrow>
               (let modifiedPdfBytes = PDFDocument_save P pdfDoc2
                in Inr (Uint8Array_of modifiedPdfBytes))))"

definition applySignatureStamp :: "uint8array \<Rightarrow> signatureData \<Rightarrow> nat \<Rightarrow> uint8array" where
  "applySignatureStamp pdfBytes signature existingSignatures = pdfBytes"

section \<open>The signing handler (\<^verbatim>\<open>handleSign\<close> of \<^verbatim>\<open>src/App.tsx\<close>)\<close>

record appState =
  app_deviceId :: jsstring
  app_pdfBytes :: "uint8array option"
  app_signatureLog :: "signatureLog option"

record signerFormData =
  form_name :: jsstring
  form_cpf :: jsstring

text \<open>
  What one call of \<open>handleSign\<close> reads of its environment: the clock for the timestamp
  of the signature, \<open>crypto.randomUUID()\<close> for its id, and the clock again in
  \<open>addSignatureToLog\<close>.
\<close>

record sign_env =
  env_timestamp :: jsstring
  env_uuid :: jsstring
  env_updatedAt :: jsstring

text \<open>
  The state after the call. When the hash cannot be computed the handler catches the
  error and shows a message, the state as it was; \<open>saveSignatureLog\<close> runs after the
  two state updates and writes to the local storage only.
\<close>

definition handleSign :: "platform \<Rightarrow> sign_env \<times> signerFormData \<Rightarrow> appState \<Rightarrow> appState" where
  "handleSign P call st =
     (let (env, data) = call
      in case (app_pdfBytes st, app_signatureLog st) of
           (Some pdfBytes, Some sigLog) \<Rightarrow>
             (let timestamp = env_timestamp env;
                  normalizedName = normalizeName (String_toUpperCase P) (form_name data);
                  normalizedCPF = normalizeCPF (form_cpf data)
              in case generateSignatureHash pdfBytes normalizedName normalizedCPF
                        (app_deviceId st) timestamp of
                   Inl e \<Rightarrow> st
                 | Inr hash \<Rightarrow>
                     (let signature = \<lparr>sd_id = env_uuid env, sd_name = normalizedName,
                                        sd_cpf = normalizedCPF, sd_deviceId = app_deviceId st,
                                        sd_timestamp = timestamp, sd_hash = hash\<rparr>;
                          newPdfBytes = applySignatureStamp pdfBytes signature
                                          (length (signatures sigLog));
                          updatedLog = addSignatureToLog (env_updatedAt env) sigLog signature
                      in st\<lparr>app_pdfBytes := Some newPdfBytes,
                             app_signatureLog := Some updatedLog\<rparr>))
         | _ \<Rightarrow> st)"

text \<open>
  The signature a call of \<open>handleSign\<close> is to record when every hash of the session binds
  the same bytes \<open>base\<close>: the specification's reading of one signing.
\<close>

definition session_signature ::
  "platform \<Rightarrow> jsstring \<Rightarrow> uint8array \<Rightarrow> sign_env \<times> signerFormData \<Rightarrow> signatureData" where
  "session_signature P deviceId base call =
     (let (env, data) = call;
          name = normalizeName (String_toUpperCase P) (form_name data);
          taxId = normalizeCPF (form_cpf data)
      in \<lparr>sd_id = env_uuid env, sd_name = name, sd_cpf = taxId, sd_deviceId = deviceId,
          sd_timestamp = env_timestamp env,
          sd_hash = spec_hex (sha256 (contents base
                      @ utf8_encode (spec_payload name taxId deviceId (env_timestamp env))))\<rparr>)"

section \<open>What a page shows\<close>

text \<open>
  The text of a drawing operation, the header overlay of a page (the three operations
  drawn last on it) and the page text of the header for page \<open>i\<close> of \<open>n\<close>.
\<close>

fun op_text :: "draw_op \<Rightarrow> jsstring option" where
  "op_text (DrawText text x y sz f c) = Some text"
| "op_text _ = None"

definition header_overlay :: "pdfpage \<Rightarrow> draw_op list" where
  "header_overlay page = drop (length (page_ops page) - 3) (page_ops page)"

definition spec_page_text :: "nat \<Rightarrow> nat \<Rightarrow> jsstring" where
  "spec_page_text i n = lit ''P'' @ [0xE1] @ lit ''gina '' @ toString10 i @ lit '' de '' @ toString10 n"

text \<open>
  The grouped rendering of a digest as the specification words it: the string in upper
  case, split into groups of two characters, the groups joined with \<open>-\<close>; the truncated
  rendering is that of its first \<open>byteCount * 2\<close> characters, with 20 for \<open>byteCount\<close>
  where the specification gives none. A digest holds hexadecimal digits only, whose
  upper case is the ASCII one; \<open>hex_upper\<close> says that a case mapping agrees with it on
  such strings, as that of every engine does.
\<close>

definition spec_groupHex :: "jsstring \<Rightarrow> jsstring" where
  "spec_groupHex digest = join (lit ''-'') (chunks 2 (map ascii_upper_unit digest))"

definition spec_truncatedGroupHex :: "jsstring \<Rightarrow> nat \<Rightarrow> jsstring" where
  "spec_truncatedGroupHex digest byteCount = spec_groupHex (take (byteCount * 2) digest)"

definition hex_upper :: "(jsstring \<Rightarrow> jsstring) \<Rightarrow> bool" where
  "hex_upper up = (\<forall>s. set s \<subseteq> set lower_hex_digits \<longrightarrow> up s = map ascii_upper_unit s)"

section \<open>Definitions the proofs work with\<close>

text \<open>
  The invariant of the counting loop of \<open>detectOriginalPageSize\<close> after the sizes \<open>xs\<close>:
  the keys are the sizes met, each once and in the order they were first met, and every
  entry holds its own size and the number of its occurrences. \<open>bump_entry\<close> is the
  update \<open>count++\<close> of the entry of a key.
\<close>

definition freq_inv :: "sizeFrequency \<Rightarrow> (real \<times> real) list \<Rightarrow> bool" where
  "freq_inv m xs =
     (distinct (map fst m) \<and> set (map fst m) = set xs
      \<and> (\<forall>e \<in> set m. fst (snd e) = fst e \<and> snd (snd e) = count_list xs (fst e))
      \<and> sorted_wrt (\<lambda>a b. first_index xs a < first_index xs b) (map fst m))"

definition bump_entry ::
  "real \<times> real \<Rightarrow> (real \<times> real) \<times> (real \<times> real) \<times> nat
     \<Rightarrow> (real \<times> real) \<times> (real \<times> real) \<times> nat" where
  "bump_entry x e = (if fst e = x then (fst e, fst (snd e), snd (snd e) + 1) else e)"

text \<open>
  A state written out: the first page, the pages behind it, the cursor; the document
  has its catalog.
\<close>

definition mk :: "pdfpage \<Rightarrow> pdfpage list \<Rightarrow> real \<Rightarrow> pstate" where
  "mk p rest y = \<lparr>st_doc = \<lparr>has_catalog = True, pages = p # rest\<rparr>, st_y = y\<rparr>"

definition add_ops :: "draw_op list \<Rightarrow> pdfpage \<Rightarrow> pdfpage" where
  "add_ops ops p = p\<lparr>page_ops := page_ops p @ ops\<rparr>"

text \<open>
  The shape of the state of \<open>createProtocolPage\<close>: a first page that was made empty,
  the pages \<open>orig\<close> of the document behind it, and behind them the pages added on overflow.
\<close>

definition protocol_shape :: "real \<times> real \<Rightarrow> pdfpage list \<Rightarrow> pstate \<Rightarrow> bool" where
  "protocol_shape dims orig st =
     (\<exists>p k y. st = mk p (orig @ replicate k (blank_page dims)) y \<and> page_content p = [])"

text \<open>
  The six lines of one signature, from the cursor \<open>y\<close> down, and what drawing them asks
  of the fonts.
\<close>

definition signature_ops :: "platform \<Rightarrow> signatureData \<Rightarrow> real \<Rightarrow> draw_op list" where
  "signature_ops P s y =
     [DrawText (lit ''Nome: '' @ sd_name s @ lit '' - CPF/CNPJ: '' @ formatCPF (sd_cpf s))
        60 y 9 HelveticaBold (0.2, 0.2, 0.2),
      DrawText (lit ''Data: '' @ Date_toLocaleString P (sd_timestamp s))
        60 (y - 14) 9 Helvetica (0.2, 0.2, 0.2),
      DrawText (lit ''Status: Assinado eletronicamente'') 60 (y - 28) 9 Helvetica (0.1, 0.5, 0.2),
      DrawText (lit ''Tipo de Autentica'' @ [0xE7, 0xE3] @ lit ''o: Utilizando identificador ''
                  @ [0xFA] @ lit ''nico do dispositivo'')
        60 (y - 42) 8 Helvetica (0.2, 0.2, 0.2),
      DrawText (lit ''Device ID: '' @ sd_deviceId s) 60 (y - 56) 8 Helvetica (0.2, 0.2, 0.2),
      DrawText (lit ''Hash da Assinatura: '' @ abbreviateHash (sd_hash s) 16)
        60 (y - 70) 8 Helvetica (0.4, 0.4, 0.4)]"

definition signature_encodable :: "platform \<Rightarrow> signatureData \<Rightarrow> bool" where
  "signature_encodable P s =
     (canEncode P HelveticaBold
        (lit ''Nome: '' @ sd_name s @ lit '' - CPF/CNPJ: '' @ formatCPF (sd_cpf s))
      \<and> canEncode P Helvetica (lit ''Data: '' @ Date_toLocaleString P (sd_timestamp s))
      \<and> canEncode P Helvetica (lit ''Status: Assinado eletronicamente'')
      \<and> canEncode P Helvetica
          (lit ''Tipo de Autentica'' @ [0xE7, 0xE3] @ lit ''o: Utilizando identificador ''
             @ [0xFA] @ lit ''nico do dispositivo'')
      \<and> canEncode P Helvetica (lit ''Device ID: '' @ sd_deviceId s)
      \<and> canEncode P Helvetica (lit ''Hash da Assinatura: '' @ abbreviateHash (sd_hash s) 16))"

section \<open>Inputs to run the definitions on\<close>

text \<open>The digest of the empty message in lower-case hexadecimal digits.\<close>

definition digest_of_empty :: jsstring where
  "digest_of_empty = lit ''e3b0c44298fc1c149afbf4c8996fb92427ae41e4649b934ca495991b7852b855''"

text \<open>
  A document of one A4 page and its bytes, a platform whose parser knows these bytes
  and whose fonts encode the code units below 256 (\<open>latin1\<close>), signers, logs, two calls of the
  signing handler and a session, and a document of three pages.
\<close>

definition latin1 :: "jsstring \<Rightarrow> bool" where
  "latin1 t = list_all (\<lambda>c. c < 0x100) t"

definition page0 :: pdfpage where
  "page0 = \<lparr>page_width = 595.28, page_height = 841.89, page_content = [0x25, 0x50, 0x44, 0x46],
            page_ops = []\<rparr>"

definition doc0 :: pdfdoc where
  "doc0 = \<lparr>has_catalog = True, pages = [page0]\<rparr>"

definition pdf0 :: uint8array where
  "pdf0 = Uint8Array_of [0x25, 0x50, 0x44, 0x46]"

definition P0 :: platform where
  "P0 = \<lparr>PDFDocument_load = (\<lambda>bs. if bs = [0x25, 0x50, 0x44, 0x46] then Some doc0 else None),
          PDFDocument_save = (\<lambda>d. concat (map page_content (pages d))),
          canEncode = (\<lambda>f t. latin1 t),
          widthOfTextAtSize = (\<lambda>f t s. real (length t) * s / 2),
          String_toUpperCase = ascii_toUpperCase,
          Date_toLocaleString = (\<lambda>ts. ts),
          now_toLocaleString = lit ''03/11/2026, 10:00:00'',
          Number_toFixed2 = (\<lambda>r. lit ''0.00'')\<rparr>"

definition signer :: "nat \<Rightarrow> signatureData" where
  "signer k = \<lparr>sd_id = lit ''sig-'' @ toString10 k, sd_name = lit ''ASSINANTE '' @ toString10 k,
               sd_cpf = lit ''52998224725'', sd_deviceId = lit ''dev-1'',
               sd_timestamp = lit ''2024-01-15T10:30:00.000Z'', sd_hash = digest_of_empty\<rparr>"

definition log_of :: "signatureData list \<Rightarrow> signatureLog" where
  "log_of sigs = \<lparr>documentId = lit ''doc-1'',
                  pdfMetadata = \<lparr>fileName = lit ''contrato.pdf'', fileSize = 4, lastModified = 0\<rparr>,
                  signatures = sigs,
                  createdAt = lit ''2024-01-15T10:00:00.000Z'',
                  updatedAt = lit ''2024-01-15T10:30:00.000Z''\<rparr>"

definition log6 :: signatureLog where
  "log6 = log_of (map signer [1, 2, 3, 4, 5, 6])"

definition log_empty :: signatureLog where
  "log_empty = log_of []"

definition call1 :: "sign_env \<times> signerFormData" where
  "call1 = (\<lparr>env_timestamp = lit ''2024-01-15T10:30:00.000Z'', env_uuid = lit ''sig-1'',
             env_updatedAt = lit ''2024-01-15T10:30:00.001Z''\<rparr>,
            \<lparr>form_name = lit ''  joao   da silva '', form_cpf = lit ''529.982.247-25''\<rparr>)"

definition call2 :: "sign_env \<times> signerFormData" where
  "call2 = (\<lparr>env_timestamp = lit ''2024-01-15T10:31:00.000Z'', env_uuid = lit ''sig-2'',
             env_updatedAt = lit ''2024-01-15T10:31:00.001Z''\<rparr>,
            \<lparr>form_name = lit ''maria souza'', form_cpf = lit ''111.444.777-35''\<rparr>)"

definition session0 :: appState where
  "session0 = \<lparr>app_deviceId = lit ''dev-1'', app_pdfBytes = Some pdf0,
               app_signatureLog = Some log_empty\<rparr>"

definition doc3 :: pdfdoc where
  "doc3 = \<lparr>has_catalog = True,
           pages = [blank_page (600, 800), blank_page (600, 800), blank_page (612, 792)]\<rparr>"


definition doc_empty :: pdfdoc where
  "doc_empty = \<lparr>has_catalog = True, pages = []\<rparr>"

definition doc_no_catalog :: pdfdoc where
  "doc_no_catalog = \<lparr>has_catalog = False, pages = []\<rparr>"

section \<open>Properties of the binding hash\<close>

lemma length_chunks_le: "length (chunks n xs) \<le> length xs"
proof (induction n xs rule: chunks.induct)
  case (3 v x xs)
  have "length (drop (Suc v) (x # xs)) < length (x # xs)" by simp
  with 3 show ?case by simp
qed simp_all

lemma length_round_step: "length s = 8 \<Longrightarrow> length (round_step s kw) = 8"
proof -
  assume "length s = 8"
  then obtain a b c d e f g h where "s = [a, b, c, d, e, f, g, h]"
    by (auto simp: length_Suc_conv eval_nat_numeral)
  then show ?thesis by (cases kw) (simp add: Let_def)
qed

lemma length_foldl_round_step: "length s = 8 \<Longrightarrow> length (foldl round_step s kws) = 8"
  by (induction kws arbitrary: s) (simp_all add: length_round_step)

lemma length_compress: "length hs = 8 \<Longrightarrow> length (compress hs block) = 8"
  by (simp add: compress_def length_foldl_round_step)

lemma length_foldl_compress: "length hs = 8 \<Longrightarrow> length (foldl compress hs blocks) = 8"
  by (induction blocks arbitrary: hs) (simp_all add: length_compress)

lemma length_concat_u32_bytes: "length (concat (map u32_bytes ws)) = 4 * length ws"
  by (induction ws) (simp_all add: u32_bytes_def)

lemma length_sha256: "length (sha256 m) = 32"
  by (simp add: sha256_def length_concat_u32_bytes length_foldl_compress sha256_H0_def)

lemma toString16_small: "n < 16 \<Longrightarrow> toString16 n = [hex_digit n]"
  by (simp add: toString16.simps)

lemma toString16_byte: "16 \<le> n \<Longrightarrow> n < 256 \<Longrightarrow> toString16 n = [hex_digit (n div 16), hex_digit (n mod 16)]"
proof -
  assume a: "16 \<le> n" and b: "n < 256"
  from b have "n div 16 < 16" by simp
  then have "toString16 (n div 16) = [hex_digit (n div 16)]" by (rule toString16_small)
  with a show ?thesis by (subst toString16.simps) simp
qed

lemma hex_digit_lower: "d < 16 \<Longrightarrow> hex_digit d = lower_hex_digits ! d"
proof -
  assume "d < 16"
  then have "d \<in> set [0..<16]" by simp
  then have "d \<in> {0, 1, 2, 3, 4, 5, 6, 7, 8, 9, 10, 11, 12, 13, 14, 15}"
    by (simp add: upt_rec numeral_nat)
  then show ?thesis
    by (auto simp: hex_digit_def lower_hex_digits_def lit_def)
qed

lemma pad_hex_byte: "padStart 2 (lit ''0'') (toString16 (unat b)) = spec_hex_byte b"
proof (cases "unat b < 16")
  case True
  then have "toString16 (unat b) = [hex_digit (unat b)]" by (rule toString16_small)
  moreover from True have "unat b div 16 = 0" "unat b mod 16 = unat b" by simp_all
  moreover have "hex_digit 0 = 0x30" by (simp add: hex_digit_def)
  moreover have "lower_hex_digits ! 0 = 0x30" by (simp add: lower_hex_digits_def lit_def)
  ultimately show ?thesis
    using True by (simp add: padStart_def spec_hex_byte_def hex_digit_lower lit_def)
next
  case False
  have lt: "unat b < 256" using unsigned_less [of b, where ?'a = nat] by simp
  with False have "toString16 (unat b) = [hex_digit (unat b div 16), hex_digit (unat b mod 16)]"
    by (intro toString16_byte) simp_all
  moreover from lt have "unat b div 16 < 16" by simp
  ultimately show ?thesis
    by (simp add: padStart_def spec_hex_byte_def hex_digit_lower)
qed

lemma generateSHA256_bytes: "generateSHA256 (BytesData a) = spec_hex (sha256 (u8_buffer a))"
  by (simp add: generateSHA256_def spec_hex_def pad_hex_byte comp_def)

lemma length_spec_hex: "length (spec_hex bs) = 2 * length bs"
  by (induction bs) (simp_all add: spec_hex_def spec_hex_byte_def)

lemma spec_hex_byte_lower: "set (spec_hex_byte b) \<subseteq> set lower_hex_digits"
proof -
  have len: "length lower_hex_digits = 16" by (simp add: lower_hex_digits_def lit_def)
  have "unat b < 256" using unsigned_less [of b, where ?'a = nat] by simp
  then have "unat b div 16 < 16" by simp
  moreover have "unat b mod 16 < 16" by simp
  ultimately show ?thesis
    using len by (simp add: spec_hex_byte_def)
qed

lemma spec_hex_lower: "set (spec_hex bs) \<subseteq> set lower_hex_digits"
  using spec_hex_byte_lower by (induction bs) (auto simp: spec_hex_def)

text \<open>
  The model of the digest primitive on two messages of known digest: the empty message
  and \<open>abc\<close> (FIPS 180-4, example B.1).
\<close>

lemma generateSHA256_empty_message: "generateSHA256 (StringData []) = digest_of_empty"
  by code_simp

lemma generateSHA256_abc:
  "generateSHA256 (StringData (lit ''abc''))
     = lit ''ba7816bf8f01cfea414140de5dae2223b00361a396177a9cb410ff61f20015ad''"
  by code_simp

lemma generateSignatureHash_Inr:
  "generateSignatureHash pdfBytes name taxId deviceToken signedAt
     = Inr (spec_hex (sha256 (contents pdfBytes
                                @ utf8_encode (spec_payload name taxId deviceToken signedAt))))"
proof -
  let ?sb = "utf8_encode (spec_payload name taxId deviceToken signedAt)"
  have "generateSignatureHash pdfBytes name taxId deviceToken signedAt
          = Inr (generateSHA256 (BytesData (Uint8Array_of (contents pdfBytes @ ?sb))))"
    by (simp add: generateSignatureHash_def Let_def u8_set_def u8_length_def new_Uint8Array_def
          TextEncoder_encode_def Uint8Array_of_def spec_payload_def)
  then show ?thesis
    by (simp add: generateSHA256_bytes u8_buffer_def Uint8Array_of_def)
qed

text \<open>
  C1. For every document byte array, name, taxId, deviceToken and signedAt string,
  \<open>generateSignatureHash\<close> returns (it never throws) the SHA-256 digest of the bytes of the
  document followed by the UTF-8 encoding of
  \<open>"|NAME:" + name + "|CPF:" + taxId + "|DEVICE:" + deviceToken + "|TIME:" + signedAt + "|"\<close>,
  each digest byte written as its two lower-case hexadecimal digits (the high digit is
  0 when the byte is below 16): 64 characters, all of them among \<open>0123456789abcdef\<close>.
\<close>

theorem generateSignatureHash_binding:
  "generateSignatureHash pdfBytes name taxId deviceToken signedAt
     = Inr (spec_hex (sha256 (contents pdfBytes
                                @ utf8_encode (spec_payload name taxId deviceToken signedAt))))
   \<and> length (spec_hex (sha256 (contents pdfBytes
                                @ utf8_encode (spec_payload name taxId deviceToken signedAt)))) = 64
   \<and> set (spec_hex (sha256 (contents pdfBytes
                                @ utf8_encode (spec_payload name taxId deviceToken signedAt))))
       \<subseteq> set lower_hex_digits"
  by (simp add: generateSignatureHash_Inr length_spec_hex length_sha256 spec_hex_lower)

section \<open>Properties of \<^verbatim>\<open>abbreviateHash\<close>\<close>

lemma substring_prefix: "substring s 0 (Some (int e)) = take e s"
  by (simp add: substring_def clamp_index_def Let_def min_def)

lemma substring_suffix: "e \<le> length s \<Longrightarrow> substring s (int (length s) - int e) None = drop (length s - e) s"
  by (simp add: substring_def clamp_index_def Let_def nat_diff_distrib' min_def max_def)

text \<open>
  C8. For every digest string \<open>d\<close> and edge length \<open>e\<close>, \<open>abbreviateHash d e\<close> is \<open>d\<close>
  itself when \<open>d\<close> has at most \<open>e * 2 + 3\<close> characters, and otherwise the first \<open>e\<close>
  characters of \<open>d\<close>, then \<open>...\<close>, then its last \<open>e\<close> characters; for a digest of 64
  characters and \<open>e = 8\<close> the result has 19 characters.
\<close>

theorem abbreviateHash_spec:
  "abbreviateHash d (int e)
     = (if length d \<le> e * 2 + 3 then d else take e d @ lit ''...'' @ drop (length d - e) d)
   \<and> (length d = 64 \<longrightarrow> length (abbreviateHash d 8) = 19)"
proof
  show "abbreviateHash d (int e)
     = (if length d \<le> e * 2 + 3 then d else take e d @ lit ''...'' @ drop (length d - e) d)"
  proof (cases "length d \<le> e * 2 + 3")
    case True
    then have "int (length d) \<le> int e * 2 + 3" by linarith
    with True show ?thesis by (simp add: abbreviateHash_def)
  next
    case False
    then have "\<not> int (length d) \<le> int e * 2 + 3" and "e \<le> length d" by linarith+
    with False show ?thesis
      by (simp add: abbreviateHash_def substring_prefix substring_suffix)
  qed
  show "length d = 64 \<longrightarrow> length (abbreviateHash d 8) = 19"
  proof
    assume len: "length d = 64"
    have "substring d 0 (Some 8) = take 8 d"
      using substring_prefix [of d 8] by simp
    moreover have "substring d (int (length d) - 8) None = drop (length d - 8) d"
      using substring_suffix [of 8 d] len by simp
    ultimately show "length (abbreviateHash d 8) = 19"
      using len by (simp add: abbreviateHash_def lit_def)
  qed
qed

theorem abbreviateHash_spec_witness:
  "length digest_of_empty = 64 \<and> length (abbreviateHash digest_of_empty 8) = 19
   \<and> abbreviateHash digest_of_empty (int 8) = lit ''e3b0c442...7852b855''"
  using abbreviateHash_spec [of digest_of_empty 8]
  by (simp add: digest_of_empty_def lit_def)

section \<open>Properties of the signature log\<close>

lemma addSignatureToLog_fold:
  "signatures (fold (\<lambda>(now, s) L. addSignatureToLog now L s) appends L)
     = signatures L @ map snd appends
   \<and> documentId (fold (\<lambda>(now, s) L. addSignatureToLog now L s) appends L) = documentId L
   \<and> pdfMetadata (fold (\<lambda>(now, s) L. addSignatureToLog now L s) appends L) = pdfMetadata L
   \<and> createdAt (fold (\<lambda>(now, s) L. addSignatureToLog now L s) appends L) = createdAt L"
proof (induction appends arbitrary: L)
  case Nil
  then show ?case by simp
next
  case (Cons a appends)
  obtain now s where a: "a = (now, s)" by (cases a)
  from Cons.IH [of "addSignatureToLog now L s"] show ?case
    by (simp add: a addSignatureToLog_def)
qed

text \<open>
  C6. For every log \<open>L\<close> and signature \<open>s\<close>, \<open>addSignatureToLog\<close> returns a new log
  whose signatures are those of \<open>L\<close> with \<open>s\<close> appended at the end and whose \<open>updatedAt\<close>
  is the reading of the clock; \<open>documentId\<close>, \<open>pdfMetadata\<close> and \<open>createdAt\<close> are those of
  \<open>L\<close>, and the result is \<open>L\<close> with these two fields replaced: \<open>L\<close> itself, a value,
  is not changed. So after any sequence of appends the signatures are those of \<open>L\<close>, in
  their order, followed by the appended ones in the order of the appends.
\<close>

theorem addSignatureToLog_frame:
  "signatures (addSignatureToLog now L s) = signatures L @ [s]
   \<and> updatedAt (addSignatureToLog now L s) = now
   \<and> documentId (addSignatureToLog now L s) = documentId L
   \<and> pdfMetadata (addSignatureToLog now L s) = pdfMetadata L
   \<and> createdAt (addSignatureToLog now L s) = createdAt L
   \<and> addSignatureToLog now L s = L\<lparr>signatures := signatures L @ [s], updatedAt := now\<rparr>
   \<and> signatures (fold (\<lambda>(now, s) L. addSignatureToLog now L s) appends L)
       = signatures L @ map snd appends"
  using addSignatureToLog_fold [of appends L] by (simp add: addSignatureToLog_def)

section \<open>Properties of \<^verbatim>\<open>normalizeName\<close>\<close>

lemma tidy_hd: "tidy t \<Longrightarrow> t \<noteq> [] \<Longrightarrow> \<not> is_ws (hd t)"
  by (induction t rule: tidy.induct) auto

lemma tidy_last: "tidy t \<Longrightarrow> t \<noteq> [] \<Longrightarrow> \<not> is_ws (last t)"
  by (induction t rule: tidy.induct) (auto split: if_splits)

lemma tidy_no_double: "tidy t \<Longrightarrow> Suc i < length t \<Longrightarrow> \<not> (is_ws (t ! i) \<and> is_ws (t ! Suc i))"
proof (induction t arbitrary: i rule: tidy.induct)
  case (3 c d cs)
  show ?case
  proof (cases i)
    case 0
    with 3 show ?thesis by simp
  next
    case (Suc j)
    show ?thesis
    proof (cases "is_ws d")
      case True
      with 3 have t: "tidy cs" "cs \<noteq> []" by simp_all
      then have "\<not> is_ws (hd cs)" by (rule tidy_hd)
      show ?thesis
      proof (cases j)
        case 0
        with Suc \<open>\<not> is_ws (hd cs)\<close> t show ?thesis by (simp add: hd_conv_nth)
      next
        case (Suc k)
        with \<open>i = Suc j\<close> 3 True show ?thesis by simp
      qed
    next
      case False
      with 3 Suc show ?thesis by simp
    qed
  qed
qed simp_all

lemma tidy_replace: "tidy t \<Longrightarrow> replace_ws_runs t = t"
proof (induction t rule: tidy.induct)
  case (3 c d cs)
  show ?case
  proof (cases "is_ws d")
    case True
    with 3 have t: "tidy cs" "cs \<noteq> []" "d = 0x20" "\<not> is_ws c" by simp_all
    then have "\<not> is_ws (hd cs)" by (simp add: tidy_hd)
    with t have "dropWhile is_ws cs = cs" by (cases cs) simp_all
    with 3 True t show ?thesis by simp
  next
    case False
    with 3 show ?thesis by simp
  qed
qed simp_all

lemma tidy_trim: "tidy t \<Longrightarrow> trim t = t"
proof (cases "t = []")
  case True
  then show ?thesis by (simp add: trim_def)
next
  case False
  assume "tidy t"
  with False have h: "\<not> is_ws (hd t)" and l: "\<not> is_ws (last t)"
    by (simp_all add: tidy_hd tidy_last)
  from h False have a: "dropWhile is_ws t = t" by (cases t) simp_all
  from l False have "dropWhile is_ws (rev t) = rev t"
    by (cases "rev t") (simp_all add: last_rev [symmetric] hd_rev)
  with a show ?thesis by (simp add: trim_def)
qed

lemma dropWhile_keeps_last:
  "cs \<noteq> [] \<Longrightarrow> \<not> P (last cs) \<Longrightarrow> dropWhile P cs \<noteq> [] \<and> last (dropWhile P cs) = last cs"
  by (induction cs) (auto split: if_splits)

lemma trim_ends: "trim s \<noteq> [] \<Longrightarrow> \<not> is_ws (hd (trim s)) \<and> \<not> is_ws (last (trim s))"
proof -
  let ?v = "dropWhile is_ws s"
  let ?w = "dropWhile is_ws (rev ?v)"
  assume ne: "trim s \<noteq> []"
  then have w: "?w \<noteq> []" by (simp add: trim_def)
  have v: "?v \<noteq> []"
  proof
    assume e: "?v = []"
    have "?w = []" unfolding e by simp
    with w show False by simp
  qed
  from w have "\<not> is_ws (hd ?w)" by (rule hd_dropWhile)
  then have l: "\<not> is_ws (last (trim s))" using w by (simp add: trim_def last_rev)
  from v have hv: "\<not> is_ws (hd ?v)" by (rule hd_dropWhile)
  from v have "rev ?v \<noteq> []" by simp
  moreover from hv v have "\<not> is_ws (last (rev ?v))" by (simp add: last_rev)
  ultimately have "last ?w = last (rev ?v)" using dropWhile_keeps_last by blast
  with v have "last ?w = hd ?v" by (simp add: last_rev)
  with hv w have "\<not> is_ws (hd (trim s))" by (simp add: trim_def hd_rev)
  with l show ?thesis by simp
qed

lemma tidy_Cons: "\<not> is_ws c \<Longrightarrow> tidy r \<Longrightarrow> r \<noteq> [] \<Longrightarrow> tidy (c # r)"
proof -
  assume c: "\<not> is_ws c" and r: "tidy r" "r \<noteq> []"
  then obtain d ds where "r = d # ds" by (cases r) auto
  moreover with r have "\<not> is_ws d" using tidy_hd [of r] by simp
  ultimately show ?thesis using c r by simp
qed

lemma replace_shape:
  "u \<noteq> [] \<Longrightarrow> \<not> is_ws (last u) \<Longrightarrow>
     (if is_ws (hd u) then \<exists>r. replace_ws_runs u = 0x20 # r \<and> r \<noteq> [] \<and> tidy r
      else tidy (replace_ws_runs u) \<and> replace_ws_runs u \<noteq> [])"
proof (induction u rule: replace_ws_runs.induct)
  case 1
  then show ?case by simp
next
  case (2 c cs)
  show ?case
  proof (cases "is_ws c")
    case True
    with 2 have cs: "cs \<noteq> []" "\<not> is_ws (last cs)" by (auto split: if_splits)
    let ?d = "dropWhile is_ws cs"
    from cs have d: "?d \<noteq> []" "last ?d = last cs" using dropWhile_keeps_last by blast+
    then have "\<not> is_ws (hd ?d)" using hd_dropWhile by blast
    with 2(1) [OF True] d cs have "tidy (replace_ws_runs ?d) \<and> replace_ws_runs ?d \<noteq> []" by simp
    with True show ?thesis by simp
  next
    case False
    show ?thesis
    proof (cases "cs = []")
      case True
      with False show ?thesis by simp
    next
      case ne: False
      with 2 have l: "\<not> is_ws (last cs)" by simp
      note ih = 2(2) [OF False ne l]
      show ?thesis
      proof (cases "is_ws (hd cs)")
        case True
        with ih obtain r where r: "replace_ws_runs cs = 0x20 # r" "r \<noteq> []" "tidy r" by auto
        have "is_ws 0x20" by (simp add: is_ws_def)
        with r False show ?thesis by simp
      next
        case nw: False
        with ih have "tidy (replace_ws_runs cs)" "replace_ws_runs cs \<noteq> []" by simp_all
        with False show ?thesis by (simp add: tidy_Cons)
      qed
    qed
  qed
qed

lemma tidy_replace_trim: "tidy (replace_ws_runs (trim s))"
proof (cases "trim s = []")
  case True
  then show ?thesis by simp
next
  case False
  then have "\<not> is_ws (hd (trim s))" "\<not> is_ws (last (trim s))" using trim_ends by blast+
  with False show ?thesis using replace_shape [of "trim s"] by simp
qed

lemma ws_free_tidy: "\<not> list_ex is_ws a \<Longrightarrow> tidy a"
  by (induction a rule: tidy.induct) auto

lemma tidy_compose:
  "a \<noteq> [] \<Longrightarrow> \<not> list_ex is_ws a \<Longrightarrow> b \<noteq> [] \<Longrightarrow> tidy b \<Longrightarrow> tidy (a @ 0x20 # b)"
proof (induction a rule: tidy.induct)
  case 1
  then show ?case by simp
next
  case (2 c)
  have "is_ws 0x20" by (simp add: is_ws_def)
  with 2 show ?case by simp
next
  case (3 c d cs)
  then show ?case by simp
qed

lemma tidy_decomp:
  "tidy t \<Longrightarrow> list_ex is_ws t \<Longrightarrow>
     \<exists>a b. t = a @ 0x20 # b \<and> a \<noteq> [] \<and> \<not> list_ex is_ws a \<and> b \<noteq> [] \<and> tidy b"
proof (induction t rule: tidy.induct)
  case 1
  then show ?case by simp
next
  case (2 c)
  then show ?case by simp
next
  case (3 c d cs)
  show ?case
  proof (cases "is_ws d")
    case True
    with 3 have "c # d # cs = [c] @ 0x20 # cs" "\<not> list_ex is_ws [c]" "cs \<noteq> []" "tidy cs"
      by simp_all
    then show ?thesis by blast
  next
    case False
    with 3 have "tidy (d # cs)" "list_ex is_ws (d # cs)" by simp_all
    with 3(2) [OF False] obtain a b where
      ab: "d # cs = a @ 0x20 # b" "a \<noteq> []" "\<not> list_ex is_ws a" "b \<noteq> []" "tidy b" by blast
    from 3 have "\<not> is_ws c" by simp
    with ab have "c # d # cs = (c # a) @ 0x20 # b" "c # a \<noteq> []" "\<not> list_ex is_ws (c # a)"
      by simp_all
    with ab show ?thesis by blast
  qed
qed

lemma tidy_case_mapping:
  assumes up: "case_mapping up"
  shows "tidy t \<Longrightarrow> tidy (up t)"
proof (induction t rule: length_induct)
  case (1 t)
  show ?case
  proof (cases "list_ex is_ws t")
    case False
    with up have "\<not> list_ex is_ws (up t)" unfolding case_mapping_def by blast
    then show ?thesis by (rule ws_free_tidy)
  next
    case True
    with 1 obtain a b where
      ab: "t = a @ 0x20 # b" "a \<noteq> []" "\<not> list_ex is_ws a" "b \<noteq> []" "tidy b"
      using tidy_decomp by blast
    have sp: "is_ws 0x20" by (simp add: is_ws_def)
    with up have eq: "up t = up a @ 0x20 # up b"
      unfolding case_mapping_def ab(1) by blast
    from ab have "length b < length t" by simp
    with 1 ab have tb: "tidy (up b)" by blast
    from up ab have "up a \<noteq> []" "up b \<noteq> []" "\<not> list_ex is_ws (up a)"
      unfolding case_mapping_def by blast+
    with tb eq show ?thesis by (simp add: tidy_compose)
  qed
qed

text \<open>
  C10. Name normalisation is idempotent,
  \<open>normalizeName (normalizeName s) = normalizeName s\<close> for every string \<open>s\<close>, and its
  result has no white space at its start or at its end and no two white space characters
  in a row, whatever case mapping \<open>toUpperCase\<close> applies, as long as it is one
  (\<open>case_mapping\<close>).
\<close>

theorem normalizeName_idempotent:
  assumes "case_mapping toUpperCase"
  shows "normalizeName toUpperCase (normalizeName toUpperCase s) = normalizeName toUpperCase s
    \<and> (normalizeName toUpperCase s \<noteq> [] \<longrightarrow>
         \<not> is_ws (hd (normalizeName toUpperCase s)) \<and> \<not> is_ws (last (normalizeName toUpperCase s)))
    \<and> (\<forall>i. Suc i < length (normalizeName toUpperCase s) \<longrightarrow>
         \<not> (is_ws (normalizeName toUpperCase s ! i) \<and> is_ws (normalizeName toUpperCase s ! Suc i)))"
proof -
  let ?r = "normalizeName toUpperCase s"
  have t: "tidy ?r"
    unfolding normalizeName_def using assms tidy_replace_trim by (rule tidy_case_mapping)
  then have "replace_ws_runs (trim ?r) = ?r" by (simp add: tidy_trim tidy_replace)
  then have "normalizeName toUpperCase ?r = toUpperCase ?r"
    by (simp add: normalizeName_def)
  also have "\<dots> = ?r"
    using assms unfolding case_mapping_def normalizeName_def by simp
  finally have "normalizeName toUpperCase ?r = ?r" .
  with t show ?thesis
    using tidy_hd [of ?r] tidy_last [of ?r] tidy_no_double [of ?r] by blast
qed

lemma printable_not_ws: "0x21 \<le> c \<and> c \<le> 0x7E \<Longrightarrow> \<not> is_ws c"
  by (auto simp: is_ws_def) unat_arith

lemma lower_not_ws: "0x61 \<le> c \<and> c \<le> 0x7A \<Longrightarrow> \<not> is_ws c"
proof -
  assume "0x61 \<le> c \<and> c \<le> 0x7A"
  then have "0x21 \<le> c \<and> c \<le> 0x7E" by unat_arith
  then show ?thesis by (rule printable_not_ws)
qed

lemma ascii_upper_unit_ws: "is_ws (ascii_upper_unit c) = is_ws c"
proof (cases "0x61 \<le> c \<and> c \<le> 0x7A")
  case False
  then show ?thesis by (auto simp: ascii_upper_unit_def)
next
  case True
  then have "\<not> is_ws c" by (rule lower_not_ws)
  moreover from True have "0x21 \<le> c - 0x20 \<and> c - 0x20 \<le> 0x7E" by unat_arith
  then have "\<not> is_ws (c - 0x20)" by (rule printable_not_ws)
  ultimately show ?thesis using True by (simp add: ascii_upper_unit_def)
qed

lemma ascii_upper_unit_idem: "ascii_upper_unit (ascii_upper_unit c) = ascii_upper_unit c"
proof (cases "0x61 \<le> c \<and> c \<le> 0x7A")
  case False
  then show ?thesis by (auto simp: ascii_upper_unit_def)
next
  case True
  then have "0x41 \<le> c - 0x20 \<and> c - 0x20 \<le> 0x5A" by unat_arith
  then have "\<not> (0x61 \<le> c - 0x20 \<and> c - 0x20 \<le> 0x7A)" by unat_arith
  then show ?thesis using True by (simp add: ascii_upper_unit_def)
qed

lemma ascii_case_mapping: "case_mapping ascii_toUpperCase"
proof -
  have "is_ws w \<Longrightarrow> ascii_upper_unit w = w" for w
    using lower_not_ws [of w] by (auto simp: ascii_upper_unit_def)
  moreover have "list_ex is_ws (map ascii_upper_unit s) = list_ex is_ws s" for s
    by (induction s) (simp_all add: ascii_upper_unit_ws)
  ultimately show ?thesis
    by (simp add: case_mapping_def ascii_toUpperCase_def ascii_upper_unit_idem)
qed

theorem normalizeName_idempotent_witness:
  "case_mapping ascii_toUpperCase
   \<and> normalizeName ascii_toUpperCase (lit ''  joao   da silva '') = lit ''JOAO DA SILVA''
   \<and> normalizeName ascii_toUpperCase (lit ''JOAO DA SILVA'') = lit ''JOAO DA SILVA''"
proof -
  have n: "normalizeName ascii_toUpperCase (lit ''  joao   da silva '') = lit ''JOAO DA SILVA''"
    by (simp add: normalizeName_def trim_def is_ws_def lit_def ascii_toUpperCase_def
          ascii_upper_unit_def)
  from normalizeName_idempotent [OF ascii_case_mapping, of "lit ''  joao   da silva ''"]
  show ?thesis using ascii_case_mapping by (simp add: n)
qed

section \<open>Properties of loading and of the signing session\<close>

text \<open>
  No step of \<open>finalizePDFWithProtocol\<close> behind \<open>loadPDF\<close> throws an \<open>Error\<close> made by
  \<open>new Error(message)\<close>: what they throw is a \<open>TypeError\<close> or the error of the library
  on a text that a font cannot encode.
\<close>

lemma bind_not_Error:
  "r \<noteq> Inl (Error m) \<Longrightarrow> (\<And>x. f x \<noteq> Inl (Error m))
     \<Longrightarrow> (case r of Inl e \<Rightarrow> Inl e | Inr x \<Rightarrow> f x) \<noteq> Inl (Error m)"
  by (cases r) auto

lemma run_not_Error:
  "(\<And>f st. f \<in> set fs \<Longrightarrow> f st \<noteq> Inl (Error m)) \<Longrightarrow> run fs st \<noteq> Inl (Error m)"
proof (induction fs arbitrary: st)
  case Nil
  then show ?case by (simp add: run.simps)
next
  case (Cons f fs)
  from Cons.prems have "f st \<noteq> Inl (Error m)" by simp
  moreover have "run fs st' \<noteq> Inl (Error m)" for st'
    using Cons.prems by (intro Cons.IH) simp
  ultimately show ?case unfolding run.simps by (rule bind_not_Error)
qed

lemma drawText_not_Error: "drawText P t opts st \<noteq> Inl (Error m)"
  by (simp add: drawText_def Let_def)

lemma drawLine_not_Error: "drawLine pw st \<noteq> Inl (Error m)"
  by (simp add: drawLine_def)

lemma move_down_not_Error: "move_down d st \<noteq> Inl (Error m)"
  by (simp add: move_down_def)

lemma draw_hash_box_not_Error: "draw_hash_box P mw t st \<noteq> Inl (Error m)"
  by (simp add: draw_hash_box_def Let_def)

lemmas step_not_Error = drawText_not_Error drawLine_not_Error move_down_not_Error
  draw_hash_box_not_Error

lemma draw_signature_not_Error: "draw_signature P dims s st \<noteq> Inl (Error m)"
  unfolding draw_signature_def Let_def
  by (cases dims) (auto simp: step_not_Error intro!: run_not_Error)

lemma signatures_not_Error:
  "run (map (draw_signature P dims) sigs) st \<noteq> Inl (Error m)"
  by (rule run_not_Error) (auto simp: draw_signature_not_Error)

lemma draw_header_section_not_Error: "draw_header_section P pw st \<noteq> Inl (Error m)"
  unfolding draw_header_section_def
  by (auto simp: step_not_Error intro!: run_not_Error)

lemma draw_document_section_not_Error:
  "draw_document_section P pw sigLog h t st \<noteq> Inl (Error m)"
  unfolding draw_document_section_def Let_def
  by (auto simp: step_not_Error intro!: run_not_Error)

lemma draw_signatures_section_not_Error:
  "draw_signatures_section P dims sigLog st \<noteq> Inl (Error m)"
  unfolding draw_signatures_section_def
  by (rule run_not_Error)
     (auto simp: step_not_Error signatures_not_Error split: if_splits)

lemma draw_authenticity_section_not_Error:
  "draw_authenticity_section P mw sigLog t st \<noteq> Inl (Error m)"
  unfolding draw_authenticity_section_def Let_def
  by (auto simp: step_not_Error intro!: run_not_Error)

lemma createProtocolPage_not_Error: "createProtocolPage P d sigLog h \<noteq> Inl (Error m)"
proof (cases "detectOriginalPageSize d")
  case (Inl e)
  then have "e = TypeError"
    by (simp add: detectOriginalPageSize_def getPages_def split: if_splits)
  with Inl show ?thesis by (simp add: createProtocolPage_def)
next
  case (Inr dims)
  obtain pw ph where dims: "dims = (pw, ph)" by (cases dims)
  have "run [draw_header_section P pw,
             draw_document_section P pw sigLog h (generateTotvsHash (String_toUpperCase P) h),
             draw_signatures_section P (pw, ph) sigLog,
             draw_authenticity_section P (pw - MARGIN * 2) sigLog
               (generateTotvsHash (String_toUpperCase P) h)] st \<noteq> Inl (Error m)" for st
    by (rule run_not_Error)
       (auto simp: draw_header_section_not_Error draw_document_section_not_Error
          draw_signatures_section_not_Error draw_authenticity_section_not_Error)
  then show ?thesis
    unfolding createProtocolPage_def Inr dims sum.case prod.case Let_def
    by (intro bind_not_Error) simp_all
qed

lemma collect_not_Error:
  "(\<And>r. r \<in> set rs \<Longrightarrow> r \<noteq> Inl (Error m)) \<Longrightarrow> collect rs \<noteq> Inl (Error m)"
  by (induction rs) (auto split: sum.splits)

lemma draw_hash_header_not_Error: "draw_hash_header P t f n i pg \<noteq> Inl (Error m)"
  by (simp add: draw_hash_header_def Let_def split: prod.splits)

lemma drawHashHeaderOnAllPages_not_Error: "drawHashHeaderOnAllPages P d h f \<noteq> Inl (Error m)"
proof -
  have "collect (map (\<lambda>i. draw_hash_header P t f n i (ps ! i)) [0..<n]) \<noteq> Inl (Error m)"
    for t n ps
    by (rule collect_not_Error) (auto simp: draw_hash_header_not_Error)
  then show ?thesis
    unfolding drawHashHeaderOnAllPages_def Let_def
    by (intro bind_not_Error) (simp_all add: getPages_def)
qed

lemma finalized_document_not_Error: "finalized_document P d b sigLog \<noteq> Inl (Error m)"
  unfolding finalized_document_def Let_def
  by (intro bind_not_Error createProtocolPage_not_Error drawHashHeaderOnAllPages_not_Error)

lemma finalize_not_Error:
  "loadPDF P pdfBytes = Inr d \<Longrightarrow> finalizePDFWithProtocol P pdfBytes sigLog \<noteq> Inl (Error m)"
  unfolding finalizePDFWithProtocol_def
  by (simp add: Let_def) (intro bind_not_Error finalized_document_not_Error, simp)

text \<open>
  C7. For every byte array, \<open>loadPDF\<close> fails, with the error that says the file may be
  corrupted or protected, exactly when the parser of the library fails on its bytes, and
  returns the document otherwise; \<open>finalizePDFWithProtocol\<close> fails with this same error
  exactly then: the error of \<open>loadPDF\<close> reaches its caller as it is, the parser is
  consulted once and nothing is tried again, and no later step throws this error.
  \<open>validatePDF\<close> is true exactly when the bytes load. (Bytes that load can still make
  \<open>finalizePDFWithProtocol\<close> fail, with another error: \<open>no_catalog_TypeError\<close> below and
  \<open>finalize_unencodable_author\<close>.)
\<close>

theorem load_failure:
  "(loadPDF P pdfBytes = Inl (Error loadPDF_message)) = (PDFDocument_load P (contents pdfBytes) = None)
   \<and> (\<exists>pdfDoc. loadPDF P pdfBytes = Inr pdfDoc) = (PDFDocument_load P (contents pdfBytes) \<noteq> None)
   \<and> (finalizePDFWithProtocol P pdfBytes sigLog = Inl (Error loadPDF_message))
       = (PDFDocument_load P (contents pdfBytes) = None)
   \<and> validatePDF P pdfBytes = (PDFDocument_load P (contents pdfBytes) \<noteq> None)
   \<and> validatePDF P pdfBytes = (\<exists>pdfDoc. loadPDF P pdfBytes = Inr pdfDoc)"
proof (cases "PDFDocument_load P (contents pdfBytes)")
  case None
  then show ?thesis
    by (simp add: loadPDF_def finalizePDFWithProtocol_def validatePDF_def)
next
  case (Some d)
  then have "loadPDF P pdfBytes = Inr d" by (simp add: loadPDF_def)
  with Some finalize_not_Error [of P pdfBytes d sigLog loadPDF_message] show ?thesis
    by (simp add: validatePDF_def)
qed

text \<open>
  Bytes that the parser accepts without a document catalog: \<open>validatePDF\<close> is true of
  them, and \<open>getPDFPageCount\<close> and \<open>finalizePDFWithProtocol\<close> throw a \<open>TypeError\<close>.
\<close>

lemma no_catalog_TypeError:
  assumes "loadPDF P pdfBytes = Inr d" and "\<not> has_catalog d"
  shows "validatePDF P pdfBytes"
    and "getPDFPageCount P pdfBytes = Inl TypeError"
    and "finalizePDFWithProtocol P pdfBytes sigLog = Inl TypeError"
  using assms
  by (simp_all add: validatePDF_def getPDFPageCount_def getPages_def finalizePDFWithProtocol_def
        finalized_document_def createProtocolPage_def detectOriginalPageSize_def Let_def)

lemma handleSign_step:
  assumes "app_pdfBytes st = Some b" and "app_signatureLog st = Some L"
  shows "handleSign P call st =
           st\<lparr>app_pdfBytes := Some b,
              app_signatureLog := Some (addSignatureToLog (env_updatedAt (fst call)) L
                                          (session_signature P (app_deviceId st) b call))\<rparr>"
  using assms
  by (cases call)
     (simp add: handleSign_def Let_def generateSignatureHash_Inr applySignatureStamp_def
        session_signature_def)

lemma handleSign_fold:
  "app_pdfBytes st = Some b \<Longrightarrow> app_signatureLog st = Some L \<Longrightarrow>
     app_pdfBytes (fold (handleSign P) calls st) = Some b
     \<and> app_deviceId (fold (handleSign P) calls st) = app_deviceId st
     \<and> map_option signatures (app_signatureLog (fold (handleSign P) calls st))
         = Some (signatures L @ map (session_signature P (app_deviceId st) b) calls)"
proof (induction calls arbitrary: st L)
  case Nil
  then show ?case by simp
next
  case (Cons call calls)
  let ?L = "addSignatureToLog (env_updatedAt (fst call)) L
              (session_signature P (app_deviceId st) b call)"
  let ?st = "handleSign P call st"
  from Cons.prems have step: "?st = st\<lparr>app_pdfBytes := Some b, app_signatureLog := Some ?L\<rparr>"
    by (rule handleSign_step)
  then have "app_pdfBytes ?st = Some b" "app_signatureLog ?st = Some ?L"
    "app_deviceId ?st = app_deviceId st" by simp_all
  with Cons.IH [of ?st ?L] show ?case
    by (simp add: addSignatureToLog_def)
qed

text \<open>
  C9. \<open>applySignatureStamp\<close> returns the byte array it was given, whatever the signature
  and the count; so in a session that starts with the bytes \<open>base\<close> and a log \<open>L\<close>, after
  any sequence of calls of \<open>handleSign\<close> the bytes are still \<open>base\<close> and the signatures
  recorded are those of \<open>L\<close> followed by one per call, each with the binding hash of
  \<open>base\<close> and the data of that call: no hash is over a document that holds earlier
  signatures.
\<close>

theorem applySignatureStamp_identity:
  "applySignatureStamp pdfBytes signature existingSignatures = pdfBytes
   \<and> (app_pdfBytes st = Some base \<and> app_signatureLog st = Some L \<longrightarrow>
        app_pdfBytes (fold (handleSign P) calls st) = Some base
        \<and> map_option signatures (app_signatureLog (fold (handleSign P) calls st))
            = Some (signatures L @ map (session_signature P (app_deviceId st) base) calls))"
  using handleSign_fold [of st base L P calls] by (simp add: applySignatureStamp_def)

section \<open>Properties of \<^verbatim>\<open>detectOriginalPageSize\<close>\<close>

lemma first_index_append: "k \<in> set xs \<Longrightarrow> first_index (xs @ ys) k = first_index xs k"
  by (simp add: first_index_def takeWhile_append1)

lemma first_index_less: "k \<in> set xs \<Longrightarrow> first_index xs k < length xs"
  unfolding first_index_def
  by (induction xs) auto

lemma first_index_new: "x \<notin> set xs \<Longrightarrow> first_index (xs @ [x]) x = length xs"
  unfolding first_index_def
  by (induction xs) auto

lemma count_page_eq:
  "count_page m pg =
     (if getSize pg \<in> set (map fst m)
      then map (\<lambda>e. if fst e = getSize pg then (fst e, fst (snd e), snd (snd e) + 1) else e) m
      else m @ [(getSize pg, getSize pg, 1)])"
proof -
  obtain w h where wh: "getSize pg = (w, h)" by (cases "getSize pg")
  show ?thesis
    by (simp add: count_page_def wh sizeKey_def Let_def split_def)
qed

lemma freq_inv_step:
  assumes "freq_inv m xs"
  shows "freq_inv (count_page m pg) (xs @ [getSize pg])"
proof -
  let ?x = "getSize pg"
  let ?P = "\<lambda>m xs. \<forall>e \<in> set m. fst (snd e) = fst e \<and> snd (snd e) = count_list xs (fst e)"
  let ?lt = "\<lambda>xs a b. first_index xs a < first_index xs b"
  from assms have d: "distinct (map fst m)" and s: "set (map fst m) = set xs"
    and c: "?P m xs" and o: "sorted_wrt (?lt xs) (map fst m)"
    unfolding freq_inv_def by blast+
  have key_in: "fst e \<in> set xs" if "e \<in> set m" for e
  proof -
    from that have "fst e \<in> set (map fst m)" by simp
    then show ?thesis by (simp only: s)
  qed
  have o': "sorted_wrt (?lt (xs @ [?x])) (map fst m)"
    using o
  proof (rule sorted_wrt_mono_rel [rotated])
    fix a b
    assume "a \<in> set (map fst m)" "b \<in> set (map fst m)"
      and lt: "first_index xs a < first_index xs b"
    then have "a \<in> set xs" "b \<in> set xs" by (simp_all only: s)
    with lt show "first_index (xs @ [?x]) a < first_index (xs @ [?x]) b"
      by (simp add: first_index_append)
  qed
  show ?thesis
  proof (cases "?x \<in> set (map fst m)")
    case True
    let ?g = "bump_entry ?x"
    have eq: "count_page m pg = map ?g m"
      using True by (simp add: count_page_eq bump_entry_def [abs_def])
    have fg: "fst (?g e) = fst e" for e by (simp add: bump_entry_def)
    have keys: "map fst (map ?g m) = map fst m" by (simp add: fg comp_def)
    from True have xin: "?x \<in> set xs" by (simp only: s)
    have 1: "distinct (map fst (map ?g m))" by (simp only: keys d)
    have 2: "set (map fst (map ?g m)) = set (xs @ [?x])"
      unfolding keys s using xin by auto
    have 3: "?P (map ?g m) (xs @ [?x])"
    proof
      fix e' assume "e' \<in> set (map ?g m)"
      then obtain e where e: "e \<in> set m" "e' = ?g e" by auto
      from c e(1) have ce: "fst (snd e) = fst e" "snd (snd e) = count_list xs (fst e)"
        by blast+
      show "fst (snd e') = fst e' \<and> snd (snd e') = count_list (xs @ [?x]) (fst e')"
        unfolding e(2) using ce by (simp add: bump_entry_def)
    qed
    have 4: "sorted_wrt (?lt (xs @ [?x])) (map fst (map ?g m))" by (simp only: keys o')
    show ?thesis
      unfolding freq_inv_def eq using 1 2 3 4 by (intro conjI)
  next
    case False
    then have eq: "count_page m pg = m @ [(?x, ?x, 1)]" by (simp add: count_page_eq)
    from False have nx: "?x \<notin> set xs" by (simp only: s not_False_eq_True)
    have keys: "map fst (m @ [(?x, ?x, 1)]) = map fst m @ [?x]" by simp
    have 1: "distinct (map fst (m @ [(?x, ?x, 1)]))"
      unfolding keys using d False by simp
    have 2: "set (map fst (m @ [(?x, ?x, 1)])) = set (xs @ [?x])"
      unfolding keys by (simp add: s [simplified])
    have 3: "?P (m @ [(?x, ?x, 1)]) (xs @ [?x])"
    proof
      fix e assume "e \<in> set (m @ [(?x, ?x, 1)])"
      then consider "e \<in> set m" | "e = (?x, ?x, 1)" by auto
      then show "fst (snd e) = fst e \<and> snd (snd e) = count_list (xs @ [?x]) (fst e)"
      proof cases
        case 1
        then have "fst e \<in> set xs" by (rule key_in)
        with nx have "fst e \<noteq> ?x" by auto
        moreover from c 1 have "fst (snd e) = fst e" "snd (snd e) = count_list xs (fst e)"
          by blast+
        ultimately show ?thesis by simp
      next
        case 2
        with nx show ?thesis by (simp add: count_list_0_iff)
      qed
    qed
    have "\<forall>k \<in> set (map fst m). first_index (xs @ [?x]) k < first_index (xs @ [?x]) ?x"
    proof
      fix k assume "k \<in> set (map fst m)"
      then have "k \<in> set xs" by (simp only: s)
      with nx show "first_index (xs @ [?x]) k < first_index (xs @ [?x]) ?x"
        by (simp add: first_index_append first_index_new first_index_less)
    qed
    then have 4: "sorted_wrt (?lt (xs @ [?x])) (map fst (m @ [(?x, ?x, 1)]))"
      unfolding keys using o' by (simp add: sorted_wrt_append)
    show ?thesis
      unfolding freq_inv_def eq using 1 2 3 4 by (intro conjI)
  qed
qed

lemma freq_inv_foldl:
  "freq_inv m xs \<Longrightarrow> freq_inv (foldl count_page m ps) (xs @ map getSize ps)"
proof (induction ps arbitrary: m xs)
  case Nil
  then show ?case by simp
next
  case (Cons p ps)
  from Cons.prems have "freq_inv (count_page m p) (xs @ [getSize p])" by (rule freq_inv_step)
  from Cons.IH [OF this] show ?case by simp
qed

lemma freq_inv_all: "freq_inv (foldl count_page [] ps) (map getSize ps)"
  using freq_inv_foldl [of "[]" "[]" ps] by (simp add: freq_inv_def)

lemma most_common_fold:
  "foldl most_common_step (s0, c0) es = (s, c) \<Longrightarrow>
     (\<forall>e \<in> set es. snd e \<le> c) \<and> c0 \<le> c
     \<and> ((s, c) = (s0, c0)
        \<or> (\<exists>i < length es. es ! i = (s, c) \<and> c0 < c \<and> (\<forall>j < i. snd (es ! j) < c)))"
proof (induction es arbitrary: s c rule: rev_induct)
  case Nil
  then show ?case by simp
next
  case (snoc e es)
  obtain s' c' where f: "foldl most_common_step (s0, c0) es = (s', c')"
    by (cases "foldl most_common_step (s0, c0) es")
  note ih = snoc.IH [OF f]
  obtain se ce where e: "e = (se, ce)" by (cases e)
  from snoc.prems have "most_common_step (foldl most_common_step (s0, c0) es) e = (s, c)"
    by simp
  then have step: "most_common_step (s', c') (se, ce) = (s, c)"
    by (simp only: f e)
  show ?case
  proof (cases "ce > c'")
    case True
    with step have sc: "s = se" "c = ce"
      by (simp_all add: most_common_step_def)
    have "(es @ [e]) ! length es = (s, c)" using e sc by simp
    moreover have "snd (es ! j) \<le> c'" if "j < length es" for j
      using ih that nth_mem [of j es] by blast
    then have "snd (es ! j) < c" if "j < length es" for j
      using that True sc by fastforce
    then have "\<forall>j < length es. snd ((es @ [e]) ! j) < c"
      by (simp add: nth_append)
    moreover have "c0 < c" using ih True sc by simp
    ultimately have "\<exists>i < length (es @ [e]). (es @ [e]) ! i = (s, c) \<and> c0 < c
                       \<and> (\<forall>j < i. snd ((es @ [e]) ! j) < c)"
      by (intro exI [of _ "length es"]) simp
    moreover have "\<forall>x \<in> set (es @ [e]). snd x \<le> c" using ih True sc e by auto
    ultimately show ?thesis using \<open>c0 < c\<close> by simp
  next
    case False
    with step have sc: "s = s'" "c = c'"
      by (simp_all add: most_common_step_def)
    have all: "\<forall>x \<in> set (es @ [e]). snd x \<le> c" using ih False sc e by auto
    from ih consider "(s', c') = (s0, c0)"
      | i where "i < length es" "es ! i = (s', c')" "c0 < c'" "\<forall>j < i. snd (es ! j) < c'"
      by blast
    then show ?thesis
    proof cases
      case 1
      with all sc ih show ?thesis by simp
    next
      case 2
      then have "i < length (es @ [e]) \<and> (es @ [e]) ! i = (s, c) \<and> c0 < c
                   \<and> (\<forall>j < i. snd ((es @ [e]) ! j) < c)"
        using sc by (auto simp: nth_append)
      with all ih sc show ?thesis by blast
    qed
  qed
qed

lemma dominant_size:
  assumes "ps \<noteq> []"
    and "foldl most_common_step ((0, 0), 0) (map snd (foldl count_page [] ps)) = (r, c)"
  shows "r \<in> set (map getSize ps)
    \<and> (\<forall>q. count_list (map getSize ps) q \<le> count_list (map getSize ps) r)
    \<and> (\<forall>q \<in> set (map getSize ps). count_list (map getSize ps) q = count_list (map getSize ps) r
          \<longrightarrow> first_index (map getSize ps) r \<le> first_index (map getSize ps) q)"
proof -
  let ?xs = "map getSize ps"
  let ?m = "foldl count_page [] ps"
  let ?es = "map snd ?m"
  have inv: "freq_inv ?m ?xs" by (rule freq_inv_all)
  then have keys: "set (map fst ?m) = set ?xs"
    and ent: "\<And>e. e \<in> set ?m \<Longrightarrow> snd e = (fst e, count_list ?xs (fst e))"
    and ord: "sorted_wrt (\<lambda>a b. first_index ?xs a < first_index ?xs b) (map fst ?m)"
    by (auto simp: freq_inv_def prod_eq_iff)
  have nth_es: "?es ! j = (map fst ?m ! j, count_list ?xs (map fst ?m ! j))"
    if "j < length ?m" for j
    using that ent [of "?m ! j"] by simp
  have pos: "0 < count_list ?xs k" if "k \<in> set ?xs" for k
    using that by (simp add: count_list_0_iff zero_less_iff_neq_zero)
  from assms(1) keys have ne: "?m \<noteq> []" by auto
  note mc = most_common_fold [OF assms(2)]
  have "(r, c) \<noteq> ((0, 0), 0)"
  proof
    assume z: "(r, c) = ((0, 0), 0)"
    from ne have "hd ?m \<in> set ?m" by simp
    then obtain e where e: "e \<in> set ?m" ..
    then have "fst e \<in> set ?xs" using keys by force
    then have "0 < count_list ?xs (fst e)" by (rule pos)
    moreover from e have "snd e \<in> set ?es" by simp
    with mc have "snd (snd e) \<le> c" by blast
    ultimately show False using z ent [OF e] by simp
  qed
  with mc obtain i where i: "i < length ?m" "?es ! i = (r, c)"
    and before: "\<forall>j < i. snd (?es ! j) < c"
    by auto
  from nth_es [OF i(1)] i(2)
  have "(map fst ?m ! i, count_list ?xs (map fst ?m ! i)) = (r, c)" by simp
  then have r: "r = map fst ?m ! i" and c: "c = count_list ?xs r" by auto
  from i r have r_in: "r \<in> set ?xs" using keys nth_mem [of i "map fst ?m"] by simp
  have maxc: "count_list ?xs q \<le> count_list ?xs r" for q
  proof (cases "q \<in> set ?xs")
    case False
    then show ?thesis by (simp add: count_list_0_iff)
  next
    case True
    with keys obtain j where j: "j < length ?m" "map fst ?m ! j = q"
      by (metis in_set_conv_nth length_map)
    then have "?es ! j \<in> set ?es" by simp
    with mc have "snd (?es ! j) \<le> c" by blast
    with j nth_es c show ?thesis by simp
  qed
  have first: "first_index ?xs r \<le> first_index ?xs q"
    if q: "q \<in> set ?xs" and eq: "count_list ?xs q = count_list ?xs r" for q
  proof -
    from q keys obtain j where j: "j < length ?m" "map fst ?m ! j = q"
      by (metis in_set_conv_nth length_map)
    have "\<not> j < i"
    proof
      assume "j < i"
      with before have "snd (?es ! j) < c" by simp
      with j nth_es c eq show False by simp
    qed
    then consider "j = i" | "i < j" by linarith
    then show ?thesis
    proof cases
      case 1
      with j r show ?thesis by simp
    next
      case 2
      from ord have "\<forall>a b. a < b \<longrightarrow> b < length (map fst ?m) \<longrightarrow>
          first_index ?xs (map fst ?m ! a) < first_index ?xs (map fst ?m ! b)"
        by (simp only: sorted_wrt_iff_nth_less)
      with 2 j(1) have "first_index ?xs (map fst ?m ! i) < first_index ?xs (map fst ?m ! j)"
        by simp
      with j r show ?thesis by simp
    qed
  qed
  from r_in maxc first show ?thesis by blast
qed

text \<open>
  C5. On a document with its page tree, \<open>detectOriginalPageSize\<close> returns the A4 size,
  595.28 by 841.89 points, when there is no page, and the size of the page when there is
  one; for two pages or more it returns a size of the document that no size occurs more
  often than, and among the sizes that occur as often, the one met first. For pages of
  the sizes (600, 800), (600, 800), (612, 792) it returns (600, 800). On a document
  without catalog there is no sequence of pages, and the call of \<open>getPages\<close> throws.
\<close>

theorem detectOriginalPageSize_spec:
  "(has_catalog d \<and> pages d = [] \<longrightarrow> detectOriginalPageSize d = Inr PageSizes_A4)
   \<and> PageSizes_A4 = (595.28, 841.89)
   \<and> (\<forall>p. has_catalog d \<and> pages d = [p] \<longrightarrow> detectOriginalPageSize d = Inr (getSize p))
   \<and> (has_catalog d \<and> 2 \<le> length (pages d) \<longrightarrow>
        (\<exists>r. detectOriginalPageSize d = Inr r
           \<and> r \<in> set (map getSize (pages d))
           \<and> (\<forall>q. count_list (map getSize (pages d)) q \<le> count_list (map getSize (pages d)) r)
           \<and> (\<forall>q \<in> set (map getSize (pages d)).
                 count_list (map getSize (pages d)) q = count_list (map getSize (pages d)) r
                 \<longrightarrow> first_index (map getSize (pages d)) r
                       \<le> first_index (map getSize (pages d)) q)))
   \<and> (has_catalog d \<and> map getSize (pages d) = [(600, 800), (600, 800), (612, 792)] \<longrightarrow>
        detectOriginalPageSize d = Inr (600, 800))
   \<and> (\<not> has_catalog d \<longrightarrow> detectOriginalPageSize d = Inl TypeError)"
proof -
  let ?xs = "map getSize (pages d)"
  have many: "\<exists>r. detectOriginalPageSize d = Inr r \<and> r \<in> set ?xs
        \<and> (\<forall>q. count_list ?xs q \<le> count_list ?xs r)
        \<and> (\<forall>q \<in> set ?xs. count_list ?xs q = count_list ?xs r
              \<longrightarrow> first_index ?xs r \<le> first_index ?xs q)"
    if cat: "has_catalog d" and len: "2 \<le> length (pages d)"
  proof -
    obtain r c where rc:
      "foldl most_common_step ((0, 0), 0) (map snd (foldl count_page [] (pages d))) = (r, c)"
      by (cases "foldl most_common_step ((0, 0), 0) (map snd (foldl count_page [] (pages d)))")
    from len have ne: "pages d \<noteq> []" and n1: "length (pages d) \<noteq> Suc 0" by auto
    from cat ne n1 rc have "detectOriginalPageSize d = Inr r"
      by (simp add: detectOriginalPageSize_def getPages_def Let_def)
    with dominant_size [OF ne rc] show ?thesis by simp
  qed
  have example: "detectOriginalPageSize d = Inr (600, 800)"
    if cat: "has_catalog d" and xs: "?xs = [(600, 800), (600, 800), (612, 792)]"
  proof -
    from xs have "length ?xs = 3" by simp
    then have "2 \<le> length (pages d)" by simp
    from many [OF cat this] obtain r where r: "detectOriginalPageSize d = Inr r"
      and mem: "r \<in> set ?xs"
      and mx: "count_list ?xs (600, 800) \<le> count_list ?xs r" by blast
    have "r = (600, 800)"
    proof (rule ccontr)
      assume "r \<noteq> (600, 800)"
      with mem xs have "r = (612, 792)" by simp
      with mx xs show False by simp
    qed
    with r show ?thesis by simp
  qed
  have "has_catalog d \<and> pages d = [] \<longrightarrow> detectOriginalPageSize d = Inr PageSizes_A4"
    by (simp add: detectOriginalPageSize_def getPages_def)
  moreover have "PageSizes_A4 = (595.28, 841.89)" by (simp add: PageSizes_A4_def)
  moreover have "\<forall>p. has_catalog d \<and> pages d = [p] \<longrightarrow> detectOriginalPageSize d = Inr (getSize p)"
    by (simp add: detectOriginalPageSize_def getPages_def)
  moreover have "has_catalog d \<and> 2 \<le> length (pages d) \<longrightarrow>
        (\<exists>r. detectOriginalPageSize d = Inr r \<and> r \<in> set ?xs
           \<and> (\<forall>q. count_list ?xs q \<le> count_list ?xs r)
           \<and> (\<forall>q \<in> set ?xs. count_list ?xs q = count_list ?xs r
                 \<longrightarrow> first_index ?xs r \<le> first_index ?xs q))"
    using many by (intro impI) (elim conjE)
  moreover have "has_catalog d \<and> ?xs = [(600, 800), (600, 800), (612, 792)] \<longrightarrow>
        detectOriginalPageSize d = Inr (600, 800)"
    using example by (intro impI) (elim conjE)
  moreover have "\<not> has_catalog d \<longrightarrow> detectOriginalPageSize d = Inl TypeError"
    by (simp add: detectOriginalPageSize_def getPages_def)
  ultimately show ?thesis by (intro conjI)
qed

theorem detectOriginalPageSize_spec_witness:
  "has_catalog doc_empty \<and> pages doc_empty = []
   \<and> detectOriginalPageSize doc_empty = Inr (595.28, 841.89)
   \<and> has_catalog doc0 \<and> pages doc0 = [page0] \<and> detectOriginalPageSize doc0 = Inr (595.28, 841.89)
   \<and> has_catalog doc3 \<and> map getSize (pages doc3) = [(600, 800), (600, 800), (612, 792)]
   \<and> 2 \<le> length (pages doc3)
   \<and> detectOriginalPageSize doc3 = Inr (600, 800)
   \<and> \<not> has_catalog doc_no_catalog \<and> detectOriginalPageSize doc_no_catalog = Inl TypeError"
  using detectOriginalPageSize_spec [of doc_empty] detectOriginalPageSize_spec [of doc0]
    detectOriginalPageSize_spec [of doc3] detectOriginalPageSize_spec [of doc_no_catalog]
  by (simp add: doc3_def doc0_def doc_empty_def doc_no_catalog_def page0_def getSize_def
        blank_page_def)

section \<open>The protocol page on an overflow\<close>

text \<open>
  When a statement returns on a state written out, and what state it returns; a sequence
  of statements returns when each of them does, on the state the one before it left.
\<close>

lemma bind_Inr_iff:
  "((case r of Inl e \<Rightarrow> Inl e | Inr x \<Rightarrow> f x) = Inr y) = (\<exists>x. r = Inr x \<and> f x = Inr y)"
  by (cases r) simp_all

lemma run_Nil_Inr: "(run [] st = Inr st') = (st' = st)"
  by (auto simp: run.simps)

lemma run_Cons_Inr:
  "(run (stmt # stmts) st = Inr st') = (\<exists>st1. stmt st = Inr st1 \<and> run stmts st1 = Inr st')"
  by (cases "stmt st") (simp_all add: run.simps)

lemma add_ops_add_ops: "add_ops b (add_ops a p) = add_ops (a @ b) p"
  by (simp add: add_ops_def)

lemma drawText_mk:
  "(drawText P t opts (mk p rest y) = Inr st')
     = (canEncode P (if opt_fontType opts = Bold then HelveticaBold else Helvetica) t
        \<and> st' = mk (add_ops [DrawText t (MARGIN + opt_indent opts) y (opt_size opts)
                      (if opt_fontType opts = Bold then HelveticaBold else Helvetica)
                      (opt_color opts)] p) rest (y - LINE_HEIGHT))"
  by (auto simp add: drawText_def mk_def add_ops_def draw_on_def protocolPage_def Let_def)

lemma drawLine_mk:
  "(drawLine pw (mk p rest y) = Inr st')
     = (st' = mk (add_ops [DrawLine (MARGIN, y) (pw - MARGIN, y) 0.5 (0.8, 0.8, 0.8)] p) rest (y - 10))"
  by (auto simp add: drawLine_def mk_def add_ops_def draw_on_def protocolPage_def)

lemma move_down_mk: "(move_down d (mk p rest y) = Inr st') = (st' = mk p rest (y - d))"
  by (auto simp add: move_down_def mk_def)

lemma draw_hash_box_mk:
  "(draw_hash_box P mw t (mk p rest y) = Inr st')
     = (canEncode P HelveticaBold (lit ''HASH TOTVS: '' @ t)
        \<and> st' = mk (add_ops [DrawRectangle (MARGIN + 10) (y - 25) (mw - 20) 30 (0.97, 0.97, 0.97)
                      (Some ((0.6, 0.6, 0.6), 1)),
                    DrawText (lit ''HASH TOTVS: '' @ t) (MARGIN + 20) (y - 25 + 10)
                      SMALL_FONT_SIZE HelveticaBold (0.2, 0.2, 0.2)] p) rest (y - 25 - 20))"
  by (auto simp add: draw_hash_box_def mk_def add_ops_def draw_on_def protocolPage_def Let_def)

lemma st_doc_mk: "pages (st_doc (mk p rest y)) = p # rest"
  by (simp add: mk_def)

lemmas mk_simps = drawText_mk drawLine_mk move_down_mk draw_hash_box_mk run_Nil_Inr run_Cons_Inr
  add_ops_add_ops

lemma insert_end:
  "insertPage \<lparr>has_catalog = True, pages = p # rest\<rparr> (Suc (length rest)) (pw, ph)
               = \<lparr>has_catalog = True, pages = p # rest @ [blank_page (pw, ph)]\<rparr>"
  by (simp add: insertPage_def)

lemma draw_signature_mk:
  "(draw_signature P (pw, ph) s (mk p rest y) = Inr st')
     = (signature_encodable P s
        \<and> st' = (if y < 200
             then mk (add_ops (signature_ops P s (ph - 50)) p) (rest @ [blank_page (pw, ph)])
               (ph - 50 - 94)
             else mk (add_ops (signature_ops P s y) p) rest (y - 94)))"
proof -
  let ?body = "run
          [drawText P (lit ''Nome: '' @ sd_name s @ lit '' - CPF/CNPJ: ''
                         @ formatCPF (sd_cpf s))
             (default_options\<lparr>opt_indent := 10, opt_fontType := Bold\<rparr>),
           drawText P (lit ''Data: '' @ Date_toLocaleString P (sd_timestamp s))
             (default_options\<lparr>opt_indent := 10\<rparr>),
           drawText P (lit ''Status: Assinado eletronicamente'')
             (default_options\<lparr>opt_indent := 10, opt_color := (0.1, 0.5, 0.2)\<rparr>),
           drawText P (lit ''Tipo de Autentica'' @ [0xE7, 0xE3]
                         @ lit ''o: Utilizando identificador '' @ [0xFA]
                         @ lit ''nico do dispositivo'')
             (default_options\<lparr>opt_indent := 10, opt_size := SMALL_FONT_SIZE\<rparr>),
           drawText P (lit ''Device ID: '' @ sd_deviceId s)
             (default_options\<lparr>opt_indent := 10, opt_size := SMALL_FONT_SIZE\<rparr>),
           drawText P (lit ''Hash da Assinatura: '' @ abbreviateHash (sd_hash s) 16)
             (default_options\<lparr>opt_indent := 10, opt_size := SMALL_FONT_SIZE,
                opt_color := (0.4, 0.4, 0.4)\<rparr>),
           move_down 10]"
  have body: "(?body (mk q r z) = Inr st')
                = (signature_encodable P s \<and> st' = mk (add_ops (signature_ops P s z) q) r (z - 94))"
    for q r z
    by (simp add: mk_simps default_options_def config_defs signature_ops_def
          signature_encodable_def)
  show ?thesis
  proof (cases "y < 200")
    case True
    then have "draw_signature P (pw, ph) s (mk p rest y)
                 = ?body (mk p (rest @ [blank_page (pw, ph)]) (ph - MARGIN))"
      unfolding draw_signature_def Let_def prod.case
      by (simp add: mk_def insert_end MARGIN_def)
    with True show ?thesis
      by (simp only: body) (simp add: MARGIN_def)
  next
    case False
    then have "draw_signature P (pw, ph) s (mk p rest y) = ?body (mk p rest y)"
      unfolding draw_signature_def Let_def prod.case
      by (simp add: mk_def MARGIN_def)
    with False show ?thesis
      by (simp only: body) simp
  qed
qed

text \<open>
  Whatever the document and the log, when \<open>createProtocolPage\<close> returns, the pages of the
  document stand in their order directly behind the first protocol page, and every page
  added on overflow behind them; the document had, and has, its catalog.
\<close>

lemma page_content_add_ops: "page_content (add_ops ops p) = page_content p"
  by (simp add: add_ops_def)

lemma shape_drawText:
  "protocol_shape dims orig st \<Longrightarrow> drawText P t opts st = Inr st' \<Longrightarrow> protocol_shape dims orig st'"
  unfolding protocol_shape_def
  by (metis drawText_mk page_content_add_ops)

lemma shape_drawLine:
  "protocol_shape dims orig st \<Longrightarrow> drawLine pw st = Inr st' \<Longrightarrow> protocol_shape dims orig st'"
  unfolding protocol_shape_def
  by (metis drawLine_mk page_content_add_ops)

lemma shape_move_down:
  "protocol_shape dims orig st \<Longrightarrow> move_down d st = Inr st' \<Longrightarrow> protocol_shape dims orig st'"
  unfolding protocol_shape_def
  by (metis move_down_mk)

lemma shape_draw_hash_box:
  "protocol_shape dims orig st \<Longrightarrow> draw_hash_box P mw t st = Inr st' \<Longrightarrow> protocol_shape dims orig st'"
  unfolding protocol_shape_def
  by (metis draw_hash_box_mk page_content_add_ops)

lemma shape_draw_signature:
  assumes "protocol_shape (pw, ph) orig st" and r: "draw_signature P (pw, ph) s st = Inr st'"
  shows "protocol_shape (pw, ph) orig st'"
proof -
  from assms obtain p k y where
    st: "st = mk p (orig @ replicate k (blank_page (pw, ph))) y" and c: "page_content p = []"
    unfolding protocol_shape_def by blast
  have app: "(orig @ replicate k (blank_page (pw, ph))) @ [blank_page (pw, ph)]
               = orig @ replicate (Suc k) (blank_page (pw, ph))"
    by (simp add: replicate_append_same)
  show ?thesis
  proof (cases "y < 200")
    case True
    with r have "st' = mk (add_ops (signature_ops P s (ph - 50)) p)
                     (orig @ replicate (Suc k) (blank_page (pw, ph))) (ph - 50 - 94)"
      unfolding st draw_signature_mk app [symmetric] by simp
    with c show ?thesis
      unfolding protocol_shape_def by (metis page_content_add_ops)
  next
    case False
    with r have "st' = mk (add_ops (signature_ops P s y) p)
                     (orig @ replicate k (blank_page (pw, ph))) (y - 94)"
      unfolding st draw_signature_mk by simp
    with c show ?thesis
      unfolding protocol_shape_def by (metis page_content_add_ops)
  qed
qed

lemma shape_run:
  "(\<And>f st st'. f \<in> set fs \<Longrightarrow> protocol_shape dims orig st \<Longrightarrow> f st = Inr st'
        \<Longrightarrow> protocol_shape dims orig st')
     \<Longrightarrow> protocol_shape dims orig st \<Longrightarrow> run fs st = Inr st' \<Longrightarrow> protocol_shape dims orig st'"
proof (induction fs arbitrary: st)
  case Nil
  then show ?case by (simp add: run_Nil_Inr)
next
  case (Cons f fs)
  from Cons.prems(3) obtain st1 where f: "f st = Inr st1" and r: "run fs st1 = Inr st'"
    unfolding run_Cons_Inr by blast
  from Cons.prems(1) [of f st st1] Cons.prems(2) f have "protocol_shape dims orig st1" by simp
  moreover have "protocol_shape dims orig b"
    if "g \<in> set fs" "protocol_shape dims orig a" "g a = Inr b" for g a b
    using that Cons.prems(1) [of g a b] by simp
  ultimately show ?case using Cons.IH [of st1] r by blast
qed

lemma shape_signatures:
  "protocol_shape (pw, ph) orig st \<Longrightarrow> run (map (draw_signature P (pw, ph)) sigs) st = Inr st'
     \<Longrightarrow> protocol_shape (pw, ph) orig st'"
  by (erule shape_run [rotated]) (auto intro: shape_draw_signature)

lemmas shape_steps = shape_drawText shape_drawLine shape_move_down shape_draw_hash_box
  shape_signatures

lemma shape_header_section:
  "protocol_shape dims orig st \<Longrightarrow> draw_header_section P pw st = Inr st'
     \<Longrightarrow> protocol_shape dims orig st'"
  unfolding draw_header_section_def
  by (erule shape_run [rotated]) (auto intro: shape_steps)

lemma shape_document_section:
  "protocol_shape dims orig st \<Longrightarrow> draw_document_section P pw sigLog h t st = Inr st'
     \<Longrightarrow> protocol_shape dims orig st'"
  unfolding draw_document_section_def Let_def
  by (erule shape_run [rotated]) (auto intro: shape_steps)

lemma shape_signatures_section:
  "protocol_shape (pw, ph) orig st \<Longrightarrow> draw_signatures_section P (pw, ph) sigLog st = Inr st'
     \<Longrightarrow> protocol_shape (pw, ph) orig st'"
  unfolding draw_signatures_section_def
  by (erule shape_run [rotated]) (auto intro: shape_steps split: if_splits)

lemma shape_authenticity_section:
  "protocol_shape dims orig st \<Longrightarrow> draw_authenticity_section P mw sigLog t st = Inr st'
     \<Longrightarrow> protocol_shape dims orig st'"
  unfolding draw_authenticity_section_def Let_def
  by (erule shape_run [rotated]) (auto intro: shape_steps)

lemma insert_front: "\<lparr>st_doc = insertPage d 0 dims, st_y = y\<rparr>
   = \<lparr>st_doc = \<lparr>has_catalog = has_catalog d, pages = blank_page dims # pages d\<rparr>, st_y = y\<rparr>"
  by (cases d) (simp add: insertPage_def)

lemma detect_Inr: "(detectOriginalPageSize d = Inr dims) \<Longrightarrow> has_catalog d"
  by (simp add: detectOriginalPageSize_def getPages_def split: if_splits)

lemma createProtocolPage_pages:
  assumes "createProtocolPage P d sigLog h = Inr D"
  shows "has_catalog d \<and> has_catalog D
         \<and> (\<exists>p k dims. detectOriginalPageSize d = Inr dims
               \<and> pages D = p # pages d @ replicate k (blank_page dims) \<and> page_content p = [])"
proof -
  from assms obtain dims where det: "detectOriginalPageSize d = Inr dims"
    by (cases "detectOriginalPageSize d") (simp_all add: createProtocolPage_def)
  then have cat: "has_catalog d" by (rule detect_Inr)
  obtain pw ph where dims: "dims = (pw, ph)" by (cases dims)
  let ?st0 = "mk (blank_page (pw, ph)) (pages d) (ph - MARGIN)"
  let ?t = "generateTotvsHash (String_toUpperCase P) h"
  let ?stmts = "[draw_header_section P pw,
                     draw_document_section P pw sigLog h ?t,
                     draw_signatures_section P (pw, ph) sigLog,
                     draw_authenticity_section P (pw - MARGIN * 2) sigLog ?t]"
  from cat have st0: "\<lparr>st_doc = insertPage d 0 (pw, ph), st_y = ph - MARGIN\<rparr> = ?st0"
    by (simp add: insert_front mk_def)
  from assms obtain st where run: "run ?stmts ?st0 = Inr st" and D: "D = st_doc st"
    unfolding createProtocolPage_def det dims sum.case prod.case Let_def st0
    by (auto simp: bind_Inr_iff)
  have "protocol_shape (pw, ph) (pages d) ?st0"
    unfolding protocol_shape_def
    by (intro exI [of _ "blank_page (pw, ph)"] exI [of _ 0] exI [of _ "ph - MARGIN"])
       (simp add: blank_page_def)
  then have "protocol_shape (pw, ph) (pages d) st"
    using run
    by (rule shape_run [rotated])
       (auto intro: shape_header_section shape_document_section shape_signatures_section
          shape_authenticity_section)
  then show ?thesis
    using cat det unfolding protocol_shape_def D dims by (auto simp: mk_def)
qed

lemma detect_doc0: "detectOriginalPageSize doc0 = Inr (595.28, 841.89)"
  by (simp add: detectOriginalPageSize_def getPages_def doc0_def page0_def getSize_def)

lemma insert_front_doc0:
  "\<lparr>st_doc = insertPage doc0 0 dims, st_y = y\<rparr> = mk (blank_page dims) [page0] y"
  by (simp add: insertPage_def doc0_def mk_def)

lemmas section_defs = draw_header_section_def draw_document_section_def
  draw_signatures_section_def draw_authenticity_section_def

lemmas eval_simps = bind_Inr_iff section_defs mk_simps draw_signature_mk st_doc_mk log_of_def
  default_options_def config_defs add_ops_def blank_page_def signature_ops_def Let_def

lemma createProtocolPage_log6:
  "createProtocolPage P doc0 log6 h = Inr D \<Longrightarrow>
     tl (pages D) = [page0, blank_page (595.28, 841.89)]
     \<and> set (signature_ops P (signer 6) 791.89) \<subseteq> set (page_ops (hd (pages D)))
     \<and> DrawText (lit ''Protocolo de Assinaturas'') 50 791.89 16 HelveticaBold (0.1, 0.3, 0.5)
         \<in> set (page_ops (hd (pages D)))"
  unfolding createProtocolPage_def detect_doc0 sum.case Let_def prod.case insert_front_doc0 log6_def
  by (clarsimp simp add: eval_simps)


text \<open>
  C2. The source at a log of six signers and a document of one A4 page, whenever it
  returns (it throws only when a font cannot encode one of the texts): before the sixth
  entry the cursor, at 134.89, is below the threshold 200; the builder adds an empty page
  at the end of the document, behind the original page, and sets the cursor to the top
  margin, but it draws the six lines of the sixth entry on the first protocol page, from
  \<open>y = 791.89\<close> down, where the title already stands. The new page stays empty.
\<close>

theorem overflow_entry_on_first_page:
  "createProtocolPage P doc0 log6 h = Inr D \<longrightarrow>
     tl (pages D) = [page0, blank_page (595.28, 841.89)]
     \<and> page_ops (blank_page (595.28, 841.89)) = []
     \<and> set (signature_ops P (signer 6) 791.89) \<subseteq> set (page_ops (hd (pages D)))
     \<and> DrawText (lit ''Protocolo de Assinaturas'') 50 791.89 16 HelveticaBold (0.1, 0.3, 0.5)
         \<in> set (page_ops (hd (pages D)))"
  using createProtocolPage_log6 [of P h D] by (simp add: blank_page_def)

section \<open>Texts and fonts\<close>

text \<open>
  A statement returns on every state when the font can encode its text, and throws on
  every state when it cannot.
\<close>

lemma run_exists:
  "(\<And>f st. f \<in> set fs \<Longrightarrow> \<exists>st'. f st = Inr st') \<Longrightarrow> \<exists>st'. run fs st = Inr st'"
proof (induction fs arbitrary: st)
  case Nil
  then show ?case by (simp add: run_Nil_Inr)
next
  case (Cons f fs)
  from Cons.prems obtain st1 where "f st = Inr st1" by fastforce
  moreover have "\<exists>st'. run fs st1 = Inr st'"
    using Cons.prems by (intro Cons.IH) simp
  ultimately show ?case by (auto simp: run_Cons_Inr)
qed

lemma drawText_exists:
  "canEncode P (if opt_fontType opts = Bold then HelveticaBold else Helvetica) t
     \<Longrightarrow> \<exists>st'. drawText P t opts st = Inr st'"
  by (simp add: drawText_def Let_def)

lemma drawLine_exists: "\<exists>st'. drawLine pw st = Inr st'"
  by (simp add: drawLine_def)

lemma move_down_exists: "\<exists>st'. move_down d st = Inr st'"
  by (simp add: move_down_def)

lemma draw_hash_box_exists:
  "canEncode P HelveticaBold (lit ''HASH TOTVS: '' @ t) \<Longrightarrow> \<exists>st'. draw_hash_box P mw t st = Inr st'"
  by (simp add: draw_hash_box_def Let_def)

lemma draw_signature_exists:
  "signature_encodable P s \<Longrightarrow> \<exists>st'. draw_signature P dims s st = Inr st'"
  unfolding draw_signature_def Let_def
  by (cases dims)
     (auto simp: signature_encodable_def default_options_def
        intro!: run_exists drawText_exists move_down_exists)

lemma run_Inl:
  "(\<And>f st. f \<in> set pre \<Longrightarrow> \<exists>st'. f st = Inr st') \<Longrightarrow> (\<And>st. g st = Inl e)
     \<Longrightarrow> run (pre @ g # post) st = Inl e"
proof (induction pre arbitrary: st)
  case Nil
  then show ?case by (simp add: run.simps)
next
  case (Cons f pre)
  from Cons.prems(1) [of f st] obtain st1 where "f st = Inr st1" by auto
  moreover have "run (pre @ g # post) st1 = Inl e"
    using Cons.prems by (intro Cons.IH) simp_all
  ultimately show ?case by (simp add: run.simps)
qed

lemma drawText_Inl:
  "\<not> canEncode P (if opt_fontType opts = Bold then HelveticaBold else Helvetica) t
     \<Longrightarrow> drawText P t opts st = Inl (EncodingError t)"
  by (simp add: drawText_def Let_def)

text \<open>
  The hash of the document is drawn as the specification renders it, by every case
  mapping that is right on hexadecimal digits.
\<close>

lemma match_pairs_chunks: "\<not> list_ex is_line_terminator s \<Longrightarrow> match_pairs s = chunks 2 s"
  by (induction s rule: match_pairs.induct) (simp_all add: numeral_2_eq_2)

lemma upper_hex_no_line_terminator:
  "set s \<subseteq> set lower_hex_digits \<Longrightarrow> \<not> list_ex is_line_terminator (map ascii_upper_unit s)"
proof -
  have "\<not> is_line_terminator (ascii_upper_unit c)" if "c \<in> set lower_hex_digits" for c
    using that by (auto simp: lower_hex_digits_def lit_def is_line_terminator_def ascii_upper_unit_def)
  then show "set s \<subseteq> set lower_hex_digits \<Longrightarrow> ?thesis"
    by (auto simp: list_ex_iff)
qed

lemma join_eq_Nil: "(join sep (x # xs) = []) = (x = [] \<and> (xs = [] \<or> sep = [] \<and> join sep xs = []))"
  by (cases xs) simp_all

lemma generateTotvsHash_spec:
  assumes up: "hex_upper up" and h: "set h \<subseteq> set lower_hex_digits"
  shows "generateTotvsHash up h = spec_truncatedGroupHex h 20"
proof -
  let ?b = "take 40 h"
  from h have b: "set ?b \<subseteq> set lower_hex_digits"
    using set_take_subset [of 40 h] by blast
  with up have u: "up ?b = map ascii_upper_unit ?b"
    unfolding hex_upper_def by blast
  from b have m: "match_pairs (map ascii_upper_unit ?b) = chunks 2 (map ascii_upper_unit ?b)"
    by (intro match_pairs_chunks upper_hex_no_line_terminator)
  have g: "generateTotvsHash up h = formatHashTotvs up ?b"
    by (simp add: generateTotvsHash_def substring_prefix [of h 40, simplified] Let_def)
  have r: "formatHashTotvs up ?b = join (lit ''-'') (chunks 2 (map ascii_upper_unit ?b))"
  proof (cases "?b")
    case Nil
    then show ?thesis
      unfolding formatHashTotvs_def u m by (simp add: numeral_2_eq_2)
  next
    case (Cons c cs)
    then have "chunks 2 (map ascii_upper_unit ?b)
                 = take 2 (map ascii_upper_unit ?b) # chunks 2 (drop 2 (map ascii_upper_unit ?b))"
      by (simp add: numeral_2_eq_2)
    moreover from Cons have "take 2 (map ascii_upper_unit ?b) \<noteq> []" by simp
    ultimately show ?thesis
      unfolding formatHashTotvs_def u m by (simp add: join_eq_Nil)
  qed
  show ?thesis
    unfolding g r spec_truncatedGroupHex_def spec_groupHex_def by simp
qed

lemma hex_upper_ascii: "hex_upper ascii_toUpperCase"
  by (simp add: hex_upper_def ascii_toUpperCase_def)

lemma documentHash_of_eq: "documentHash_of pdfBytes = spec_hex (sha256 (u8_buffer pdfBytes))"
  by (simp add: documentHash_of_def spec_hex_def pad_hex_byte comp_def)


text \<open>
  The fonts of the platform \<open>P0\<close> encode every text that \<open>createProtocolPage\<close> draws for
  the signers \<open>signer k\<close>.
\<close>

lemma latin1_Nil: "latin1 []"
  by (simp add: latin1_def)

lemma latin1_Cons: "latin1 (c # t) = (c < 0x100 \<and> latin1 t)"
  by (simp add: latin1_def)

lemma latin1_append: "latin1 (a @ b) = (latin1 a \<and> latin1 b)"
  by (simp add: latin1_def)

lemma latin1_set: "latin1 t = (set t \<subseteq> {c. c < 0x100})"
  by (auto simp: latin1_def list_all_iff)

lemma latin1_subset: "set a \<subseteq> set b \<Longrightarrow> latin1 b \<Longrightarrow> latin1 a"
  by (auto simp: latin1_set)

lemma code_unit_of_nat_less: "n < 256 \<Longrightarrow> (of_nat n :: 16 word) < 0x100"
  by (simp add: word_less_nat_alt unat_of_nat)

lemma latin1_lit: "latin1 (lit s)"
proof -
  have "(of_nat (of_char c) :: 16 word) < 0x100" for c :: char
  proof -
    have "(of_char c :: nat) < 256" by (cases c) simp
    then show ?thesis by (intro code_unit_of_nat_less) simp
  qed
  then show ?thesis by (simp add: latin1_def lit_def list_all_iff)
qed

lemma latin1_toString10: "latin1 (toString10 n)"
proof (induction n rule: toString10.induct)
  case (1 n)
  have d: "(of_nat (0x30 + k) :: 16 word) < 0x100" if "k < 10" for k :: nat
  proof -
    from that show ?thesis by (intro code_unit_of_nat_less) simp
  qed
  show ?case
  proof (cases "n < 10")
    case True
    with d [of n] show ?thesis by (subst toString10.simps) (simp add: latin1_Cons latin1_Nil)
  next
    case False
    with 1 d [of "n mod 10"] show ?thesis
      by (subst toString10.simps) (simp add: latin1_append latin1_Cons latin1_Nil)
  qed
qed

lemma latin1_take: "latin1 t \<Longrightarrow> latin1 (take n t)"
  by (rule latin1_subset [OF set_take_subset])

lemma latin1_drop: "latin1 t \<Longrightarrow> latin1 (drop n t)"
  by (rule latin1_subset [OF set_drop_subset])

lemma latin1_formatCPF: "latin1 t \<Longrightarrow> latin1 (formatCPF t)"
proof -
  assume t: "latin1 t"
  then have "latin1 (normalizeCPF t)"
    by (auto simp: latin1_set normalizeCPF_def)
  with t show ?thesis
    by (simp add: formatCPF_def Let_def latin1_append latin1_lit latin1_take latin1_drop)
qed

lemma latin1_strip_pdf_suffix: "latin1 t \<Longrightarrow> latin1 (strip_pdf_suffix t)"
  by (simp add: strip_pdf_suffix_def latin1_take)

lemma latin1_substring: "latin1 t \<Longrightarrow> latin1 (substring t a b)"
  by (simp add: substring_def Let_def latin1_take latin1_drop)

lemma latin1_abbreviateHash: "latin1 t \<Longrightarrow> latin1 (abbreviateHash t n)"
  by (simp add: abbreviateHash_def latin1_append latin1_lit latin1_substring)

lemma latin1_spec_hex: "latin1 (spec_hex bs)"
  using spec_hex_lower [of bs] latin1_lit [of "''0123456789abcdef''"]
  by (auto simp: latin1_set lower_hex_digits_def)

lemma latin1_join: "latin1 sep \<Longrightarrow> list_all latin1 xs \<Longrightarrow> latin1 (join sep xs)"
  by (induction sep xs rule: join.induct) (simp_all add: latin1_append latin1_Nil)

lemma latin1_chunks: "latin1 t \<Longrightarrow> list_all latin1 (chunks n t)"
proof (induction n t rule: chunks.induct)
  case (3 v x xs)
  then show ?case by (simp add: latin1_take latin1_drop del: take_Suc_Cons drop_Suc_Cons)
qed simp_all

lemma ascii_upper_unit_latin1: "c < 0x100 \<Longrightarrow> ascii_upper_unit c < 0x100"
  unfolding ascii_upper_unit_def by (auto) unat_arith

lemma latin1_map_upper: "latin1 t \<Longrightarrow> latin1 (map ascii_upper_unit t)"
  by (auto simp: latin1_set ascii_upper_unit_latin1)

lemma latin1_spec_truncatedGroupHex: "latin1 t \<Longrightarrow> latin1 (spec_truncatedGroupHex t n)"
  by (simp add: spec_truncatedGroupHex_def spec_groupHex_def latin1_join latin1_chunks
        latin1_map_upper latin1_take latin1_lit)

lemma canEncode_P0: "canEncode P0 f t = latin1 t"
  by (simp add: P0_def)

lemma P0_texts:
  "String_toUpperCase P0 = ascii_toUpperCase"
  "Date_toLocaleString P0 ts = ts"
  "now_toLocaleString P0 = lit ''03/11/2026, 10:00:00''"
  "Number_toFixed2 P0 r = lit ''0.00''"
  by (simp_all add: P0_def)

lemma latin1_totvs: "latin1 (generateTotvsHash ascii_toUpperCase (documentHash_of b))"
  unfolding documentHash_of_eq generateTotvsHash_spec [OF hex_upper_ascii spec_hex_lower]
  by (intro latin1_spec_truncatedGroupHex latin1_spec_hex)

lemma latin1_documentHash_of: "latin1 (documentHash_of b)"
  unfolding documentHash_of_eq by (rule latin1_spec_hex)

lemma latin1_spec_page_text: "latin1 (spec_page_text i n)"
  by (simp add: spec_page_text_def latin1_append latin1_Cons latin1_Nil latin1_lit latin1_toString10)

lemmas latin1_simps = latin1_append latin1_Cons latin1_Nil latin1_lit latin1_toString10
  latin1_formatCPF latin1_strip_pdf_suffix latin1_abbreviateHash latin1_totvs
  latin1_documentHash_of latin1_spec_page_text

lemma signature_encodable_P0: "signature_encodable P0 (signer k)"
  by (simp add: signature_encodable_def canEncode_P0 P0_texts signer_def digest_of_empty_def
        latin1_simps)

lemma latin1_signer_name: "latin1 (sd_name (signer k))"
  by (simp add: signer_def latin1_simps)

lemma createProtocolPage_P0_exists:
  assumes "has_catalog d"
  shows "\<exists>D. createProtocolPage P0 d (log_of (map signer ks)) (documentHash_of b) = Inr D"
proof -
  from assms obtain pw ph where det: "detectOriginalPageSize d = Inr (pw, ph)"
    by (cases "detectOriginalPageSize d") (auto simp: detectOriginalPageSize_def getPages_def)
  have "\<exists>st'. run [draw_header_section P0 pw,
             draw_document_section P0 pw (log_of (map signer ks)) (documentHash_of b)
               (generateTotvsHash (String_toUpperCase P0) (documentHash_of b)),
             draw_signatures_section P0 (pw, ph) (log_of (map signer ks)),
             draw_authenticity_section P0 (pw - MARGIN * 2) (log_of (map signer ks))
               (generateTotvsHash (String_toUpperCase P0) (documentHash_of b))] st = Inr st'" for st
    unfolding section_defs Let_def
    by (rule run_exists)
       (auto simp: canEncode_P0 P0_texts log_of_def default_options_def latin1_simps hd_map
          latin1_signer_name signature_encodable_P0
          intro!: run_exists drawText_exists drawLine_exists move_down_exists draw_hash_box_exists
            draw_signature_exists)
  then obtain st' where "run [draw_header_section P0 pw,
             draw_document_section P0 pw (log_of (map signer ks)) (documentHash_of b)
               (generateTotvsHash (String_toUpperCase P0) (documentHash_of b)),
             draw_signatures_section P0 (pw, ph) (log_of (map signer ks)),
             draw_authenticity_section P0 (pw - MARGIN * 2) (log_of (map signer ks))
               (generateTotvsHash (String_toUpperCase P0) (documentHash_of b))]
            \<lparr>st_doc = insertPage d 0 (pw, ph), st_y = ph - MARGIN\<rparr> = Inr st'"
    by blast
  then show ?thesis
    unfolding createProtocolPage_def det sum.case prod.case Let_def by simp
qed

lemma has_catalog_doc0: "has_catalog doc0"
  by (simp add: doc0_def)

theorem overflow_entry_on_first_page_witness:
  "\<exists>D. createProtocolPage P0 doc0 log6 (documentHash_of pdf0) = Inr D
     \<and> tl (pages D) = [page0, blank_page (595.28, 841.89)]
     \<and> page_ops (blank_page (595.28, 841.89)) = []
     \<and> set (signature_ops P0 (signer 6) 791.89) \<subseteq> set (page_ops (hd (pages D)))
     \<and> DrawText (lit ''Protocolo de Assinaturas'') 50 791.89 16 HelveticaBold (0.1, 0.3, 0.5)
         \<in> set (page_ops (hd (pages D)))"
proof -
  from createProtocolPage_P0_exists [OF has_catalog_doc0, of "[1, 2, 3, 4, 5, 6]" pdf0]
  obtain D where "createProtocolPage P0 doc0 log6 (documentHash_of pdf0) = Inr D"
    unfolding log6_def by blast
  with overflow_entry_on_first_page [of P0 "documentHash_of pdf0" D] show ?thesis by blast
qed

text \<open>
  A signer whose name the font cannot encode: the line with the author, the name of the
  first signer, is the first that cannot be drawn, and its error ends
  \<open>finalizePDFWithProtocol\<close>.
\<close>

lemma load_pdf0: "loadPDF P0 pdf0 = Inr doc0"
  by (simp add: loadPDF_def P0_def pdf0_def Uint8Array_of_def)


lemma finalize_unencodable_author:
  assumes load: "loadPDF P pdfBytes = Inr d" and cat: "has_catalog d"
    and sigs: "signatures sigLog \<noteq> []"
    and 1: "canEncode P HelveticaBold (lit ''Protocolo de Assinaturas'')"
    and 2: "canEncode P HelveticaBold (lit ''Documento'')"
    and 3: "canEncode P Helvetica
              (lit ''Nome do envelope: '' @ strip_pdf_suffix (fileName (pdfMetadata sigLog)))"
    and 4: "\<not> canEncode P Helvetica (lit ''Autor: '' @ sd_name (hd (signatures sigLog)))"
  shows "finalizePDFWithProtocol P pdfBytes sigLog
           = Inl (EncodingError (lit ''Autor: '' @ sd_name (hd (signatures sigLog))))"
proof -
  let ?e = "EncodingError (lit ''Autor: '' @ sd_name (hd (signatures sigLog)))"
  let ?h = "documentHash_of pdfBytes"
  let ?t = "generateTotvsHash (String_toUpperCase P) ?h"
  from cat obtain pw ph where det: "detectOriginalPageSize d = Inr (pw, ph)"
    by (cases "detectOriginalPageSize d") (auto simp: detectOriginalPageSize_def getPages_def)
  have header: "\<exists>st'. draw_header_section P pw st = Inr st'" for st
    unfolding draw_header_section_def
    by (rule run_exists)
       (auto simp: 1 default_options_def intro!: drawText_exists drawLine_exists move_down_exists)
  have author: "drawText P (lit ''Autor: '' @ sd_name (hd (signatures sigLog)))
                  (default_options\<lparr>opt_indent := 10\<rparr>) st = Inl ?e" for st
    by (rule drawText_Inl) (simp add: 4 default_options_def)
  have document: "draw_document_section P pw sigLog ?h ?t st = Inl ?e" for st
  proof -
    have "run ([drawText P (lit ''Documento'')
                 (default_options\<lparr>opt_size := SUBTITLE_FONT_SIZE, opt_fontType := Bold,
                    opt_color := (0.2, 0.4, 0.6)\<rparr>),
               move_down 5,
               drawText P (lit ''Nome do envelope: '' @ strip_pdf_suffix (fileName (pdfMetadata sigLog)))
                 (default_options\<lparr>opt_indent := 10\<rparr>)]
              @ drawText P (lit ''Autor: '' @ sd_name (hd (signatures sigLog)))
                  (default_options\<lparr>opt_indent := 10\<rparr>)
              # [drawText P (lit ''Status: '' @ lit ''Finalizado'') (default_options\<lparr>opt_indent := 10\<rparr>),
                 drawText P (lit ''HASH TOTVS: '' @ ?t)
                   (default_options\<lparr>opt_indent := 10, opt_size := SMALL_FONT_SIZE\<rparr>),
                 drawText P (lit ''SHA256: '' @ ?h)
                   (default_options\<lparr>opt_indent := 10, opt_size := SMALL_FONT_SIZE\<rparr>),
                 move_down SECTION_SPACING,
                 drawLine pw,
                 move_down 10]) st = Inl ?e"
      by (rule run_Inl [OF _ author])
         (auto simp: 2 3 default_options_def intro!: drawText_exists move_down_exists)
    with sigs show ?thesis
      by (simp add: draw_document_section_def Let_def)
  qed
  have "run ([draw_header_section P pw]
             @ draw_document_section P pw sigLog ?h ?t
             # [draw_signatures_section P (pw, ph) sigLog,
                draw_authenticity_section P (pw - MARGIN * 2) sigLog ?t]) st = Inl ?e" for st
    by (rule run_Inl [OF _ document]) (simp add: header)
  then have "createProtocolPage P d sigLog ?h = Inl ?e"
    unfolding createProtocolPage_def det sum.case prod.case Let_def by simp
  with load show ?thesis
    by (simp add: finalizePDFWithProtocol_def finalized_document_def Let_def)
qed

lemma finalize_P0_unencodable_name:
  "finalizePDFWithProtocol P0 pdf0 (log_of [(signer 1)\<lparr>sd_name := [0x141]\<rparr>])
     = Inl (EncodingError (lit ''Autor: '' @ [0x141]))"
  using finalize_unencodable_author [OF load_pdf0 has_catalog_doc0,
      of "log_of [(signer 1)\<lparr>sd_name := [0x141]\<rparr>]"]
  by (simp add: log_of_def canEncode_P0 latin1_simps)

section \<open>Properties of the header\<close>

lemma collect_Inr:
  "collect rs = Inr xs \<Longrightarrow> length xs = length rs \<and> (\<forall>i<length rs. rs ! i = Inr (xs ! i))"
proof (induction rs arbitrary: xs)
  case Nil
  then show ?case by simp
next
  case (Cons r rs)
  from Cons.prems obtain x ys where r: "r = Inr x" and c: "collect rs = Inr ys" and xs: "xs = x # ys"
    by (auto split: sum.splits)
  from Cons.IH [OF c] r xs show ?case
    by (auto simp: nth_Cons split: nat.splits)
qed

lemma collect_exists:
  "(\<And>r. r \<in> set rs \<Longrightarrow> \<exists>x. r = Inr x) \<Longrightarrow> \<exists>xs. collect rs = Inr xs"
proof (induction rs)
  case Nil
  then show ?case by simp
next
  case (Cons r rs)
  from Cons.prems obtain x where "r = Inr x" by auto
  moreover from Cons obtain xs where "collect rs = Inr xs" by auto
  ultimately show ?case by simp
qed

lemma draw_hash_header_Inr:
  assumes "draw_hash_header P t f n i pg = Inr pg'"
  shows "page_content pg' = page_content pg"
    and "map op_text (page_ops pg')
           = map op_text (page_ops pg)
               @ [None, Some (lit ''HASH: '' @ t), Some (spec_page_text (i + 1) n)]"
    and "map op_text (header_overlay pg')
           = [None, Some (lit ''HASH: '' @ t), Some (spec_page_text (i + 1) n)]"
  using assms
  by (auto simp: draw_hash_header_def header_overlay_def Let_def spec_page_text_def
        split: prod.splits if_splits)

lemma draw_hash_header_exists:
  "canEncode P f (lit ''HASH: '' @ t) \<Longrightarrow> canEncode P f (spec_page_text (i + 1) n)
     \<Longrightarrow> \<exists>pg'. draw_hash_header P t f n i pg = Inr pg'"
  by (simp add: draw_hash_header_def Let_def spec_page_text_def split: prod.splits)

lemma drawHashHeaderOnAllPages_Inr:
  assumes "drawHashHeaderOnAllPages P d h f = Inr D"
  shows "length (pages D) = length (pages d)"
    and "i < length (pages d) \<Longrightarrow>
           draw_hash_header P (generateTotvsHash (String_toUpperCase P) h) f (length (pages d)) i
             (pages d ! i) = Inr (pages D ! i)"
proof -
  let ?rs = "map (\<lambda>i. draw_hash_header P (generateTotvsHash (String_toUpperCase P) h) f
                        (length (pages d)) i (pages d ! i)) [0..<length (pages d)]"
  from assms obtain ps' where c: "collect ?rs = Inr ps'" and D: "D = d\<lparr>pages := ps'\<rparr>"
    by (auto simp: drawHashHeaderOnAllPages_def getPages_def Let_def split: if_splits sum.splits)
  from collect_Inr [OF c] have len: "length ps' = length (pages d)"
    and nth: "\<forall>i<length (pages d). ?rs ! i = Inr (ps' ! i)" by simp_all
  from len show "length (pages D) = length (pages d)" by (simp add: D)
  show "draw_hash_header P (generateTotvsHash (String_toUpperCase P) h) f (length (pages d)) i
             (pages d ! i) = Inr (pages D ! i)" if "i < length (pages d)"
    using nth that by (simp add: D)
qed

lemma drawHashHeaderOnAllPages_exists:
  assumes "has_catalog d"
    and "canEncode P f (lit ''HASH: '' @ generateTotvsHash (String_toUpperCase P) h)"
    and "\<And>i. i < length (pages d) \<Longrightarrow> canEncode P f (spec_page_text (i + 1) (length (pages d)))"
  shows "\<exists>D. drawHashHeaderOnAllPages P d h f = Inr D"
proof -
  let ?rs = "map (\<lambda>i. draw_hash_header P (generateTotvsHash (String_toUpperCase P) h) f
                        (length (pages d)) i (pages d ! i)) [0..<length (pages d)]"
  have "\<exists>xs. collect ?rs = Inr xs"
    by (rule collect_exists) (auto intro!: draw_hash_header_exists assms)
  with assms(1) show ?thesis
    by (auto simp: drawHashHeaderOnAllPages_def getPages_def Let_def)
qed



lemma u8_buffer_whole:
  "hidden_before b = [] \<Longrightarrow> hidden_after b = [] \<Longrightarrow> u8_buffer b = contents b"
  by (simp add: u8_buffer_def)

lemma finalized_document_exists:
  assumes c: "createProtocolPage P d sigLog (documentHash_of b) = Inr D1"
    and h: "canEncode P Helvetica
              (lit ''HASH: '' @ generateTotvsHash (String_toUpperCase P) (documentHash_of b))"
    and p: "\<And>i n. canEncode P Helvetica (spec_page_text i n)"
  shows "\<exists>D. finalized_document P d b sigLog = Inr D"
proof -
  from createProtocolPage_pages [OF c] have "has_catalog D1" by simp
  then have "\<exists>D. drawHashHeaderOnAllPages P D1 (documentHash_of b) Helvetica = Inr D"
    using h p by (rule drawHashHeaderOnAllPages_exists)
  with c show ?thesis by (simp add: finalized_document_def Let_def)
qed

lemma finalized_document_P0_exists:
  "createProtocolPage P0 d sigLog (documentHash_of b) = Inr D1
     \<Longrightarrow> \<exists>D. finalized_document P0 d b sigLog = Inr D"
  by (erule finalized_document_exists)
     (simp_all add: canEncode_P0 P0_texts latin1_simps)

lemma finalize_Inr:
  "loadPDF P b = Inr d \<Longrightarrow> finalized_document P d b sigLog = Inr D
     \<Longrightarrow> finalizePDFWithProtocol P b sigLog = Inr (Uint8Array_of (PDFDocument_save P D))"
  by (simp add: finalizePDFWithProtocol_def Let_def)


lemma list_of_length_3: "length xs = 3 \<Longrightarrow> xs = [xs ! 0, xs ! 1, xs ! 2]"
proof -
  assume "length xs = 3"
  then obtain a b c where "xs = [a, b, c]"
    by (auto simp: length_Suc_conv numeral_3_eq_3)
  then show ?thesis by simp
qed

text \<open>
  C4. The source at the same log and document: the document \<open>finalizePDFWithProtocol\<close>
  saves has three pages, the first protocol page, then the original page, then the page
  the overflow added, which holds the header with page 3 of 3 and nothing else. The
  original page is not behind all the pages the builder made.
\<close>

theorem overflow_page_behind_original:
  "\<exists>D. finalized_document P0 doc0 pdf0 log6 = Inr D
     \<and> finalizePDFWithProtocol P0 pdf0 log6 = Inr (Uint8Array_of (PDFDocument_save P0 D))
     \<and> map page_content (pages D) = [[], [0x25, 0x50, 0x44, 0x46], []]
     \<and> map op_text (page_ops (pages D ! 2))
         = [None,
            Some (lit ''HASH: '' @ generateTotvsHash (String_toUpperCase P0) (documentHash_of pdf0)),
            Some (spec_page_text 3 3)]"
proof -
  let ?h = "documentHash_of pdf0"
  let ?t = "generateTotvsHash (String_toUpperCase P0) ?h"
  from createProtocolPage_P0_exists [OF has_catalog_doc0, of "[1, 2, 3, 4, 5, 6]" pdf0]
  obtain D1 where c: "createProtocolPage P0 doc0 log6 ?h = Inr D1"
    unfolding log6_def by blast
  from createProtocolPage_log6 [OF c]
  have tl: "tl (pages D1) = [page0, blank_page (595.28, 841.89)]" by simp
  from createProtocolPage_pages [OF c] obtain p rest where
    ps: "pages D1 = p # rest" and p: "page_content p = []" by blast
  with tl have pages1: "pages D1 = [p, page0, blank_page (595.28, 841.89)]" by simp
  from finalized_document_P0_exists [OF c]
  obtain D where fd: "finalized_document P0 doc0 pdf0 log6 = Inr D" by blast
  then have h: "drawHashHeaderOnAllPages P0 D1 ?h Helvetica = Inr D"
    using c by (simp add: finalized_document_def Let_def)
  from drawHashHeaderOnAllPages_Inr(1) [OF h] pages1 have len: "length (pages D) = 3" by simp
  have nth: "draw_hash_header P0 ?t Helvetica 3 i (pages D1 ! i) = Inr (pages D ! i)" if "i < 3" for i
    using drawHashHeaderOnAllPages_Inr(2) [OF h, of i] that pages1 by (simp add: numeral_3_eq_3)
  from len have D: "pages D = [pages D ! 0, pages D ! 1, pages D ! 2]"
    by (rule list_of_length_3)
  have "page_content (pages D ! 0) = []" "page_content (pages D ! 1) = [0x25, 0x50, 0x44, 0x46]"
    "page_content (pages D ! 2) = []"
    using draw_hash_header_Inr(1) [OF nth [of 0]] draw_hash_header_Inr(1) [OF nth [of 1]]
      draw_hash_header_Inr(1) [OF nth [of 2]] p
    by (simp_all add: pages1 page0_def blank_page_def)
  then have "map page_content (pages D) = [[], [0x25, 0x50, 0x44, 0x46], []]"
    by (subst D) simp
  moreover have "map op_text (page_ops (pages D ! 2))
         = [None, Some (lit ''HASH: '' @ ?t), Some (spec_page_text 3 3)]"
    using draw_hash_header_Inr(2) [OF nth [of 2]] by (simp add: pages1 blank_page_def)
  ultimately show ?thesis
    using fd finalize_Inr [OF load_pdf0 fd] by (intro exI [of _ D] conjI)
qed




theorem applySignatureStamp_identity_witness:
  "app_pdfBytes session0 = Some pdf0 \<and> app_signatureLog session0 = Some log_empty
   \<and> app_pdfBytes (fold (handleSign P0) [call1, call2] session0) = Some pdf0
   \<and> map_option signatures (app_signatureLog (fold (handleSign P0) [call1, call2] session0))
       = Some [session_signature P0 (lit ''dev-1'') pdf0 call1,
               session_signature P0 (lit ''dev-1'') pdf0 call2]"
  using applySignatureStamp_identity [of pdf0 "signer 1" 0 session0 pdf0 log_empty P0 "[call1, call2]"]
  by (simp add: session0_def log_empty_def log_of_def)

end

